theory Spec2Isabelle
  imports Main "HOL-Library.Product_Lexorder"
begin

section \<open>Data model of \<^verbatim>\<open>dijkstra_notebook.py\<close>\<close>

text \<open>
  The graph is an adjacency matrix \<^verbatim>\<open>matrix\<close>, a list of rows of Python integers; the
  entry \<^verbatim>\<open>matrix[i][j]\<close> is the weight of the edge from \<open>i\<close> to \<open>j\<close>, and \<open>0\<close> stands
  for "no edge". Vertices are the indices \<open>0, 1, ...\<close>; every index the program uses
  comes from \<^verbatim>\<open>range(len(matrix))\<close> or is the literal \<open>0\<close>, so indices are natural
  numbers. An index past the end of a list raises \<^verbatim>\<open>IndexError\<close>; adding \<^verbatim>\<open>None\<close> to a
  number raises \<^verbatim>\<open>TypeError\<close>.
\<close>

datatype py_error = IndexError | TypeError

text \<open>
  An entry of \<^verbatim>\<open>distance_vector\<close> is either an integer or \<^verbatim>\<open>float("inf")\<close>. The program
  only compares entries (\<^verbatim>\<open>alt < distance_vector[v]\<close>, \<^verbatim>\<open>== float('inf')\<close>) and stores
  integers (\<^verbatim>\<open>alt\<close>), so no floating-point arithmetic takes place.
\<close>

datatype dist = Fin int | Infinity

instantiation dist :: linorder
begin

fun less_eq_dist :: "dist \<Rightarrow> dist \<Rightarrow> bool" where
  "less_eq_dist (Fin a) (Fin b) = (a \<le> b)"
| "less_eq_dist Infinity (Fin b) = False"
| "less_eq_dist x Infinity = True"

definition less_dist :: "dist \<Rightarrow> dist \<Rightarrow> bool" where
  "less_dist x y = (x \<le> y \<and> \<not> y \<le> x)"

instance
proof
  fix x y z :: dist
  show "(x < y) = (x \<le> y \<and> \<not> y \<le> x)" by (simp add: less_dist_def)
  show "x \<le> x" by (cases x) simp_all
  show "x \<le> y \<Longrightarrow> y \<le> z \<Longrightarrow> x \<le> z" by (cases x; cases y; cases z) simp_all
  show "x \<le> y \<Longrightarrow> y \<le> x \<Longrightarrow> x = y" by (cases x; cases y) simp_all
  show "x \<le> y \<or> y \<le> x" by (cases x; cases y) auto
qed

end

text \<open>
  The four structures of a run. \<^verbatim>\<open>visited\<close> is a Python set, \<^verbatim>\<open>heap\<close> the list behind
  \<^verbatim>\<open>heapq\<close>, holding pairs \<^verbatim>\<open>(distance, vertex)\<close>; \<^verbatim>\<open>distance_vector\<close> is the caller's list,
  \<^verbatim>\<open>previous\<close> the predecessor list (\<^verbatim>\<open>None\<close> or a vertex).
\<close>

record state =
  visited :: "nat set"
  heap :: "(int \<times> nat) list"
  distance_vector :: "dist list"
  previous :: "nat option list"

text \<open>One line of the final report printed by \<^verbatim>\<open>dijkstra\<close>.\<close>

datatype line = Unreachable nat | PathTo nat "nat list" dist

section \<open>The priority queue\<close>

text \<open>
  \<^verbatim>\<open>heapq.heappush\<close> adds an entry and \<^verbatim>\<open>heapq.heappop\<close> removes and returns the least
  entry in Python's tuple order (distance first, then vertex), which is the
  lexicographic order on pairs. Equal pairs are indistinguishable, so the contents as a
  multiset fix the result; the list is kept unordered here.
\<close>

definition heappush :: "(int \<times> nat) list \<Rightarrow> int \<times> nat \<Rightarrow> (int \<times> nat) list" where
  "heappush h x = x # h"

definition heappop :: "(int \<times> nat) list \<Rightarrow> (int \<times> nat) \<times> (int \<times> nat) list" where
  "heappop h = (let m = Min (set h) in (m, remove1 m h))"

section \<open>Module level: edges and the initial distance vector\<close>

text \<open>
  \<^verbatim>\<open>edges = [(i, j, matrix[i][j]) for i in range(n) for j in range(n) if matrix[i][j] != 0]\<close>
  for an \<open>n \<times> n\<close> matrix.
\<close>

definition edges :: "int list list \<Rightarrow> (nat \<times> nat \<times> int) list" where
  "edges matrix =
     concat (map (\<lambda>i. map (\<lambda>j. (i, j, matrix ! i ! j))
                        (filter (\<lambda>j. matrix ! i ! j \<noteq> 0) [0..<length matrix]))
                 [0..<length matrix])"

text \<open>
  \<^verbatim>\<open>distance_vector = [float("inf")] * len(matrix); distance_vector[0] = 0\<close>. The
  assignment raises \<^verbatim>\<open>IndexError\<close> on an empty matrix.
\<close>

definition init_vector :: "nat \<Rightarrow> dist list" where
  "init_vector n = (replicate n Infinity)[0 := Fin 0]"

definition module_distance_vector :: "int list list \<Rightarrow> py_error + dist list" where
  "module_distance_vector matrix =
     (if matrix = [] then Inl IndexError else Inr (init_vector (length matrix)))"

section \<open>The functions of the program\<close>

text \<open>\<^verbatim>\<open>return matrix[i][j] if matrix[i][j] != 0 else None\<close>\<close>

definition distance :: "int list list \<Rightarrow> nat \<Rightarrow> nat \<Rightarrow> py_error + int option" where
  "distance matrix i j =
     (if i < length matrix \<and> j < length (matrix ! i)
      then Inr (if matrix ! i ! j \<noteq> 0 then Some (matrix ! i ! j) else None)
      else Inl IndexError)"

text \<open>
  \<^verbatim>\<open>[j for j in range(len(matrix)) if distance(matrix, i, j) is not None]\<close>: the first
  failing call of \<^verbatim>\<open>distance\<close> ends the comprehension with its error.
\<close>

fun neighbours_of :: "int list list \<Rightarrow> nat \<Rightarrow> nat list \<Rightarrow> py_error + nat list" where
  "neighbours_of matrix i [] = Inr []"
| "neighbours_of matrix i (j # js) =
     (case distance matrix i j of
        Inl e \<Rightarrow> Inl e
      | Inr d \<Rightarrow>
          (case neighbours_of matrix i js of
             Inl e \<Rightarrow> Inl e
           | Inr r \<Rightarrow> Inr (if d \<noteq> None then j # r else r)))"

definition neighbours :: "int list list \<Rightarrow> nat \<Rightarrow> py_error + nat list" where
  "neighbours matrix i = neighbours_of matrix i [0..<length matrix]"

text \<open>
  The body of the \<^verbatim>\<open>for v in neighbours(matrix, u)\<close> loop: skip a visited vertex,
  otherwise compute \<^verbatim>\<open>alt\<close> and, when it is smaller than the entry of \<open>v\<close>, store it,
  record the predecessor and push \<^verbatim>\<open>(alt, v)\<close>. The checks come in the order in which
  the program indexes its lists. (\<^verbatim>\<open>previous\<close> has one entry per row of the matrix and
  \<open>v\<close> is a row index, so inside \<^verbatim>\<open>dijkstra\<close> its check never fails.)
\<close>

definition relax :: "int list list \<Rightarrow> int \<Rightarrow> nat \<Rightarrow> nat \<Rightarrow> state \<Rightarrow> py_error + state" where
  "relax matrix current_dist u v s =
     (if v \<in> visited s then Inr s
      else case distance matrix u v of
             Inl e \<Rightarrow> Inl e
           | Inr None \<Rightarrow> Inl TypeError
           | Inr (Some w) \<Rightarrow>
               (let alt = current_dist + w in
                if v < length (distance_vector s) then
                  if Fin alt < distance_vector s ! v then
                    if v < length (previous s) then
                      Inr (s\<lparr>distance_vector := (distance_vector s)[v := Fin alt],
                             previous := (previous s)[v := Some u],
                             heap := heappush (heap s) (alt, v)\<rparr>)
                    else Inl IndexError
                  else Inr s
                else Inl IndexError))"

fun for_neighbours :: "int list list \<Rightarrow> int \<Rightarrow> nat \<Rightarrow> nat list \<Rightarrow> state \<Rightarrow> py_error + state" where
  "for_neighbours matrix current_dist u [] s = Inr s"
| "for_neighbours matrix current_dist u (v # vs) s =
     (case relax matrix current_dist u v s of
        Inl e \<Rightarrow> Inl e
      | Inr s' \<Rightarrow> for_neighbours matrix current_dist u vs s')"

text \<open>
  One iteration of \<^verbatim>\<open>while heap\<close>: pop the least entry; drop it when its vertex is
  already visited; otherwise mark the vertex visited and relax its neighbours.
\<close>

definition visit :: "int list list \<Rightarrow> state \<Rightarrow> py_error + state" where
  "visit matrix s =
     (case heappop (heap s) of
        ((current_dist, u), h) \<Rightarrow>
          if u \<in> visited s then Inr (s\<lparr>heap := h\<rparr>)
          else case neighbours matrix u of
                 Inl e \<Rightarrow> Inl e
               | Inr ns \<Rightarrow>
                   for_neighbours matrix current_dist u ns
                     (s\<lparr>heap := h, visited := insert u (visited s)\<rparr>))"

text \<open>
  The \<^verbatim>\<open>while heap\<close> loop. The value \<open>None\<close> stands for a loop that never ends.
\<close>

partial_function (option) relaxation_loop ::
  "int list list \<Rightarrow> state \<Rightarrow> (py_error + state) option" where
  "relaxation_loop matrix s =
     (if heap s = [] then Some (Inr s)
      else case visit matrix s of
             Inl e \<Rightarrow> Some (Inl e)
           | Inr s' \<Rightarrow> relaxation_loop matrix s')"

declare relaxation_loop.simps [code]

text \<open>
  The state before the loop: \<^verbatim>\<open>visited = set()\<close>, \<^verbatim>\<open>heap = [(0, 0)]\<close>,
  \<^verbatim>\<open>previous = [None] * len(matrix)\<close>, and the distance vector the caller passed.
\<close>

definition initial_state :: "int list list \<Rightarrow> dist list \<Rightarrow> state" where
  "initial_state matrix dv =
     \<lparr>visited = {}, heap = [(0, 0)], distance_vector = dv,
      previous = replicate (length matrix) None\<rparr>"

text \<open>
  The walk \<^verbatim>\<open>while current is not None: path.append(current); current = previous[current]\<close>.
  Nothing bounds the number of steps; \<open>None\<close> stands for a walk that never ends.
\<close>

partial_function (option) walk ::
  "nat option list \<Rightarrow> nat option \<Rightarrow> nat list \<Rightarrow> (py_error + nat list) option" where
  "walk prev current path =
     (case current of
        None \<Rightarrow> Some (Inr path)
      | Some c \<Rightarrow>
          if c < length prev then walk prev (prev ! c) (path @ [c])
          else Some (Inl IndexError))"

declare walk.simps [code]


text \<open>
  The report loop \<^verbatim>\<open>for target in range(len(matrix))\<close>: an unreachable line when the
  entry is \<^verbatim>\<open>float('inf')\<close>, otherwise the reversed walk and the distance.
\<close>

definition report_line :: "dist list \<Rightarrow> nat option list \<Rightarrow> nat \<Rightarrow> (py_error + line) option" where
  "report_line dv prev target =
     (if target < length dv then
        if dv ! target = Infinity then Some (Inr (Unreachable target))
        else case walk prev (Some target) [] of
               None \<Rightarrow> None
             | Some (Inl e) \<Rightarrow> Some (Inl e)
             | Some (Inr path) \<Rightarrow> Some (Inr (PathTo target (rev path) (dv ! target)))
      else Some (Inl IndexError))"

fun report :: "dist list \<Rightarrow> nat option list \<Rightarrow> nat list \<Rightarrow> (py_error + line list) option" where
  "report dv prev [] = Some (Inr [])"
| "report dv prev (target # targets) =
     (case report_line dv prev target of
        None \<Rightarrow> None
      | Some (Inl e) \<Rightarrow> Some (Inl e)
      | Some (Inr l) \<Rightarrow>
          (case report dv prev targets of
             None \<Rightarrow> None
           | Some (Inl e) \<Rightarrow> Some (Inl e)
           | Some (Inr ls) \<Rightarrow> Some (Inr (l # ls))))"

text \<open>
  \<^verbatim>\<open>dijkstra(matrix, distance_vector)\<close>: the loop, then the report, then
  \<^verbatim>\<open>return distance_vector\<close>. The result pairs the printed report with the returned
  list, which is the caller's list after the updates made in place. The progress
  lines printed inside the loop are output only and are left out.
\<close>

definition dijkstra :: "int list list \<Rightarrow> dist list \<Rightarrow> (py_error + line list \<times> dist list) option" where
  "dijkstra matrix dv =
     (case relaxation_loop matrix (initial_state matrix dv) of
        None \<Rightarrow> None
      | Some (Inl e) \<Rightarrow> Some (Inl e)
      | Some (Inr s) \<Rightarrow>
          (case report (distance_vector s) (previous s) [0..<length matrix] of
             None \<Rightarrow> None
           | Some (Inl e) \<Rightarrow> Some (Inl e)
           | Some (Inr ls) \<Rightarrow> Some (Inr (ls, distance_vector s))))"

section \<open>Notions used to state the properties\<close>

text \<open>A matrix is square when every row is as long as the list of rows.\<close>

definition square :: "int list list \<Rightarrow> bool" where
  "square matrix = list_all (\<lambda>row. length row = length matrix) matrix"

text \<open>
  The vertices that can still be visited: those named by a frontier entry, and the
  indices of the matrix, that are not in \<^verbatim>\<open>visited\<close>. Their number and the length of the
  frontier measure the progress of the loop.
\<close>

definition unvisited :: "int list list \<Rightarrow> state \<Rightarrow> nat set" where
  "unvisited matrix s = (snd ` set (heap s) \<union> {..<length matrix}) - visited s"

text \<open>
  A state fits the matrix when both lists have one entry per vertex and the frontier
  names vertices only.
\<close>

definition wf_state :: "int list list \<Rightarrow> state \<Rightarrow> bool" where
  "wf_state matrix s \<longleftrightarrow>
     length (distance_vector s) = length matrix \<and>
     length (previous s) = length matrix \<and>
     (\<forall>x\<in>set (heap s). snd x < length matrix)"

text \<open>
  Following \<^verbatim>\<open>previous\<close> from \<open>u\<close> stays inside the set \<open>V\<close> and reaches an entry
  \<^verbatim>\<open>None\<close>.
\<close>

inductive rooted :: "nat option list \<Rightarrow> nat set \<Rightarrow> nat \<Rightarrow> bool" for prev V where
  root: "u \<in> V \<Longrightarrow> u < length prev \<Longrightarrow> prev ! u = None \<Longrightarrow> rooted prev V u"
| child: "u \<in> V \<Longrightarrow> u < length prev \<Longrightarrow> prev ! u = Some p \<Longrightarrow> rooted prev V p \<Longrightarrow> rooted prev V u"

text \<open>
  What the loop keeps true of \<^verbatim>\<open>previous\<close>: a predecessor is a visited vertex, and
  from a visited vertex the predecessors lead to an entry \<^verbatim>\<open>None\<close>.
\<close>

definition prev_inv :: "state \<Rightarrow> bool" where
  "prev_inv s \<longleftrightarrow>
     (\<forall>v<length (previous s). \<forall>u. previous s ! v = Some u \<longrightarrow> u \<in> visited s \<and> u < length (previous s)) \<and>
     (\<forall>u\<in>visited s. u < length (previous s) \<longrightarrow> rooted (previous s) (visited s) u)"

text \<open>
  A path is a non-empty list of vertices of the matrix in which every vertex has an
  edge (a non-zero entry) to the next one; its weight is the sum of these entries. A
  source path to \<open>v\<close> starts at vertex \<open>0\<close> and ends at \<open>v\<close>.
\<close>

fun is_path :: "int list list \<Rightarrow> nat list \<Rightarrow> bool" where
  "is_path matrix [] = False"
| "is_path matrix [x] = (x < length matrix)"
| "is_path matrix (x # y # p) =
     (x < length matrix \<and> matrix ! x ! y \<noteq> 0 \<and> is_path matrix (y # p))"

fun path_weight :: "int list list \<Rightarrow> nat list \<Rightarrow> int" where
  "path_weight matrix (x # y # p) = matrix ! x ! y + path_weight matrix (y # p)"
| "path_weight matrix p = 0"

definition source_path :: "int list list \<Rightarrow> nat list \<Rightarrow> nat \<Rightarrow> bool" where
  "source_path matrix p v \<longleftrightarrow> is_path matrix p \<and> hd p = 0 \<and> last p = v"

text \<open>No entry of the matrix is negative.\<close>

definition nonneg :: "int list list \<Rightarrow> bool" where
  "nonneg matrix = list_all (list_all (\<lambda>w. 0 \<le> w)) matrix"

text \<open>Some source path to \<open>v\<close> has weight \<open>d\<close>.\<close>

definition reach :: "int list list \<Rightarrow> nat \<Rightarrow> int \<Rightarrow> bool" where
  "reach matrix v d \<longleftrightarrow> (\<exists>p. source_path matrix p v \<and> path_weight matrix p = d)"

text \<open>
  Every frontier entry and every finite entry of the distance vector is the weight of
  a source path to its vertex.
\<close>

definition sound :: "int list list \<Rightarrow> state \<Rightarrow> bool" where
  "sound matrix s \<longleftrightarrow>
     (\<forall>x\<in>set (heap s). reach matrix (snd x) (fst x)) \<and>
     (\<forall>v<length matrix. \<forall>d. distance_vector s ! v = Fin d \<longrightarrow> reach matrix v d)"

text \<open>
  What the loop keeps true of the distances when no weight is negative: vertex \<open>0\<close>
  holds \<open>0\<close>; no frontier entry is below the entry of its vertex; the entry of a
  vertex that is not visited is in the frontier; the entry of a visited vertex is at
  most the weight of every source path to it.
\<close>

definition opt_inv :: "int list list \<Rightarrow> state \<Rightarrow> bool" where
  "opt_inv matrix s \<longleftrightarrow>
     distance_vector s ! 0 = Fin 0 \<and>
     (\<forall>x\<in>set (heap s). distance_vector s ! snd x \<le> Fin (fst x)) \<and>
     (\<forall>v<length matrix. \<forall>d. v \<notin> visited s \<longrightarrow> distance_vector s ! v = Fin d \<longrightarrow>
          (d, v) \<in> set (heap s)) \<and>
     (\<forall>u\<in>visited s. u < length matrix \<and>
          (\<exists>d. distance_vector s ! u = Fin d \<and>
               (\<forall>p. source_path matrix p u \<longrightarrow> d \<le> path_weight matrix p)))"

text \<open>The edge from \<open>u\<close> to \<open>v\<close> cannot improve the entry of \<open>v\<close>.\<close>

definition relaxed :: "int list list \<Rightarrow> state \<Rightarrow> nat \<Rightarrow> nat \<Rightarrow> bool" where
  "relaxed matrix s u v \<longleftrightarrow>
     (\<forall>d. distance_vector s ! u = Fin d \<longrightarrow> matrix ! u ! v \<noteq> 0 \<longrightarrow>
          distance_vector s ! v \<le> Fin (d + matrix ! u ! v))"

text \<open>The invariant of the loop: all of the above, with every edge out of a visited vertex relaxed.\<close>

definition dijkstra_inv :: "int list list \<Rightarrow> state \<Rightarrow> bool" where
  "dijkstra_inv matrix s \<longleftrightarrow>
     wf_state matrix s \<and> sound matrix s \<and> opt_inv matrix s \<and>
     (\<forall>u\<in>visited s. \<forall>v<length matrix. relaxed matrix s u v)"

text \<open>
  The report line of target \<open>t\<close> for a distance vector: the unreachable line when
  the entry is infinite, otherwise a path that ends in \<open>t\<close>, with the entry.
\<close>

definition line_for :: "dist list \<Rightarrow> nat \<Rightarrow> line \<Rightarrow> bool" where
  "line_for dv t l \<longleftrightarrow>
     (if dv ! t = Infinity then l = Unreachable t
      else \<exists>p. l = PathTo t (p @ [t]) (dv ! t))"

text \<open>
  \<open>d\<close> is the least weight of a source path to \<open>v\<close>: some source path to \<open>v\<close> has
  weight \<open>d\<close> and none has a smaller weight.
\<close>

definition shortest :: "int list list \<Rightarrow> nat \<Rightarrow> int \<Rightarrow> bool" where
  "shortest matrix v d \<longleftrightarrow>
     (\<exists>q. source_path matrix q v \<and> path_weight matrix q = d) \<and>
     (\<forall>q. source_path matrix q v \<longrightarrow> d \<le> path_weight matrix q)"

text \<open>The vector \<open>dv'\<close> has the length of \<open>dv\<close> and no entry above the entry of \<open>dv\<close>.\<close>

definition never_above :: "dist list \<Rightarrow> dist list \<Rightarrow> bool" where
  "never_above dv' dv \<longleftrightarrow> length dv' = length dv \<and> list_all2 (\<le>) dv' dv"


text \<open>
  Following \<^verbatim>\<open>previous\<close> from \<open>u\<close> reaches an entry \<^verbatim>\<open>None\<close> through vertices of the
  set \<open>A\<close>, using every vertex at most once.
\<close>

inductive chain :: "nat option list \<Rightarrow> nat set \<Rightarrow> nat \<Rightarrow> bool" for prev where
  root: "u \<in> A \<Longrightarrow> u < length prev \<Longrightarrow> prev ! u = None \<Longrightarrow> chain prev A u"
| child: "u \<in> A \<Longrightarrow> u < length prev \<Longrightarrow> prev ! u = Some p \<Longrightarrow> chain prev (A - {u}) p \<Longrightarrow>
          chain prev A u"


section \<open>The graph store\<close>

lemma square_row: "square m \<Longrightarrow> i < length m \<Longrightarrow> length (m ! i) = length m"
  by (simp add: square_def list_all_length)

lemma neighbours_of_filter:
  "i < length m \<Longrightarrow> \<forall>j\<in>set js. j < length (m ! i) \<Longrightarrow>
   neighbours_of m i js = Inr (filter (\<lambda>j. m ! i ! j \<noteq> 0) js)"
  by (induction js) (simp_all add: distance_def)

lemma neighbours_filter:
  "square m \<Longrightarrow> i < length m \<Longrightarrow>
   neighbours m i = Inr (filter (\<lambda>j. m ! i ! j \<noteq> 0) [0..<length m])"
  by (simp add: neighbours_def neighbours_of_filter square_row)

lemma neighbours_of_subset: "neighbours_of m i js = Inr r \<Longrightarrow> set r \<subseteq> set js"
  by (induction js arbitrary: r) (auto split: sum.splits if_splits)

lemma neighbours_bound: "neighbours m i = Inr ns \<Longrightarrow> v \<in> set ns \<Longrightarrow> v < length m"
  using neighbours_of_subset[of m i "[0..<length m]" ns] by (auto simp: neighbours_def)

lemma edges_iff:
  "(i, j, w) \<in> set (edges m) \<longleftrightarrow> i < length m \<and> j < length m \<and> w = m ! i ! j \<and> w \<noteq> 0"
  by (auto simp: edges_def)

text \<open>
  C10. In a square matrix and for vertices \<open>i\<close> and \<open>j\<close>, the edge from \<open>i\<close> to \<open>j\<close>
  exists exactly when \<^verbatim>\<open>matrix[i][j]\<close> is not zero: \<^verbatim>\<open>distance\<close> returns \<^verbatim>\<open>None\<close> exactly
  for a zero entry and the non-zero entry otherwise, \<^verbatim>\<open>neighbours(matrix, i)\<close> contains
  \<open>j\<close> exactly when the entry is not zero, and the edge list holds \<open>(i, j, w)\<close> exactly
  when \<open>w\<close> is the non-zero entry. So no edge of weight \<open>0\<close> is ever present.
\<close>

theorem zero_entry_is_no_edge:
  assumes "square matrix" and "i < length matrix" and "j < length matrix"
  shows "(distance matrix i j = Inr None \<longleftrightarrow> matrix ! i ! j = 0) \<and>
         (distance matrix i j = Inr (Some w) \<longleftrightarrow> matrix ! i ! j = w \<and> w \<noteq> 0) \<and>
         (\<exists>ns. neighbours matrix i = Inr ns \<and> (j \<in> set ns \<longleftrightarrow> matrix ! i ! j \<noteq> 0)) \<and>
         ((i, j, w) \<in> set (edges matrix) \<longleftrightarrow> matrix ! i ! j = w \<and> w \<noteq> 0) \<and>
         (i, j, 0) \<notin> set (edges matrix)"
  using assms by (auto simp: distance_def neighbours_filter square_row edges_iff)

theorem zero_entry_is_no_edge_witness:
  "distance [[0, 0], [3, 0]] 0 1 = Inr None \<and>
   distance [[0, 0], [3, 0]] 1 0 = Inr (Some 3) \<and>
   (\<exists>ns. neighbours [[0, 0], [3, 0]] 0 = Inr ns \<and> 1 \<notin> set ns) \<and>
   (0, 1, 0) \<notin> set (edges [[0, 0], [3, 0]])"
  using zero_entry_is_no_edge [of "[[0, 0], [3, 0]]" 0 1 0]
        zero_entry_is_no_edge [of "[[0, 0], [3, 0]]" 1 0 3]
  by (simp add: square_def)

text \<open>
  C5, as stated, fails: no matrix has both the edge \<open>(0, 1, 5)\<close> and the edge
  \<open>(0, 1, 2)\<close>, since one entry holds one weight.
\<close>

theorem parallel_edges_counterexample:
  "\<not> (\<exists>matrix. (0, 1, 5) \<in> set (edges matrix) \<and> (0, 1, 2) \<in> set (edges matrix))"
  by (simp add: edges_iff)

text \<open>
  C5, amended. The adjacency matrix holds at most one edge for an ordered pair of
  vertices: two edges of the edge list with the same endpoints have the same weight.
  With the single edge \<open>(0, 1, 2)\<close> the run from vertex \<open>0\<close> gives
  \<^verbatim>\<open>distance[1] = 2\<close>, by the path \<open>[0, 1]\<close>.
\<close>

theorem one_edge_per_pair:
  "((i, j, w) \<in> set (edges matrix) \<and> (i, j, w') \<in> set (edges matrix) \<longrightarrow> w = w') \<and>
   dijkstra [[0, 2], [0, 0]] (init_vector 2) =
     Some (Inr ([PathTo 0 [0] (Fin 0), PathTo 1 [0, 1] (Fin 2)], [Fin 0, Fin 2]))"
proof
  show "(i, j, w) \<in> set (edges matrix) \<and> (i, j, w') \<in> set (edges matrix) \<longrightarrow> w = w'"
    by (simp add: edges_iff)
  show "dijkstra [[0, 2], [0, 0]] (init_vector 2) =
     Some (Inr ([PathTo 0 [0] (Fin 0), PathTo 1 [0, 1] (Fin 2)], [Fin 0, Fin 2]))"
    by code_simp
qed

theorem one_edge_per_pair_witness:
  "(0, 1, 2) \<in> set (edges [[0, 2], [0, 0]]) \<and> (0, 1, 5) \<notin> set (edges [[0, 2], [0, 0]])"
  using one_edge_per_pair [of 0 1 2 "[[0, 2], [0, 0]]" 5]
  by (auto simp: edges_iff)

section \<open>The relaxation loop\<close>

lemma relax_cases:
  assumes "relax m d u v s = Inr s'"
  shows "s' = s \<or>
         (\<exists>w. v \<notin> visited s \<and> distance m u v = Inr (Some w) \<and> v < length (distance_vector s) \<and>
              v < length (previous s) \<and> Fin (d + w) < distance_vector s ! v \<and>
              s' = s\<lparr>distance_vector := (distance_vector s)[v := Fin (d + w)],
                     previous := (previous s)[v := Some u],
                     heap := (d + w, v) # heap s\<rparr>)"
  using assms
  by (auto simp: relax_def heappush_def Let_def split: if_splits sum.splits option.splits)

lemma relax_visited: "relax m d u v s = Inr s' \<Longrightarrow> visited s' = visited s"
  by (drule relax_cases) auto

lemma relax_heap_vertices:
  "relax m d u v s = Inr s' \<Longrightarrow> snd ` set (heap s') \<subseteq> insert v (snd ` set (heap s))"
  by (drule relax_cases) auto

lemma for_neighbours_visited:
  "for_neighbours m d u vs s = Inr s' \<Longrightarrow> visited s' = visited s"
  by (induction vs arbitrary: s) (auto split: sum.splits dest: relax_visited)

lemma for_neighbours_heap_vertices:
  "for_neighbours m d u vs s = Inr s' \<Longrightarrow> snd ` set (heap s') \<subseteq> set vs \<union> snd ` set (heap s)"
proof (induction vs arbitrary: s)
  case Nil
  then show ?case by simp
next
  case (Cons v vs)
  from Cons.prems obtain s1 where r: "relax m d u v s = Inr s1"
    and f: "for_neighbours m d u vs s1 = Inr s'"
    by (auto split: sum.splits)
  from Cons.IH[OF f] relax_heap_vertices[OF r] show ?case by auto
qed

lemma finite_unvisited: "finite (unvisited m s)"
  by (simp add: unvisited_def)

lemma heappop_in:
  "h \<noteq> [] \<Longrightarrow> heappop h = (x, h') \<Longrightarrow>
   x \<in> set h \<and> h' = remove1 x h \<and> (\<forall>y\<in>set h. x \<le> y)"
  by (auto simp: heappop_def Let_def)

text \<open>
  Every iteration makes progress: it visits a vertex that was not visited, or it leaves
  the visited set as it is and shortens the frontier by the stale entry it drops.
\<close>

lemma visit_decreases:
  assumes "heap s \<noteq> []" and "visit m s = Inr s'"
  shows "(s', s) \<in> measures [\<lambda>s. card (unvisited m s), \<lambda>s. length (heap s)]"
proof -
  obtain d u h where pop: "heappop (heap s) = ((d, u), h)"
    by (metis prod.exhaust)
  from heappop_in[OF assms(1) pop] have inh: "(d, u) \<in> set (heap s)" and h: "h = remove1 (d, u) (heap s)"
    by auto
  have len: "length h < length (heap s)"
    using inh h by (simp add: length_remove1) (cases "heap s"; simp)
  have sub: "set h \<subseteq> set (heap s)" unfolding h by (rule set_remove1_subset)
  show ?thesis
  proof (cases "u \<in> visited s")
    case True
    with assms(2) pop have s': "s' = s\<lparr>heap := h\<rparr>" by (simp add: visit_def)
    have "unvisited m s' \<subseteq> unvisited m s" using sub by (auto simp: s' unvisited_def)
    then have "card (unvisited m s') \<le> card (unvisited m s)"
      by (rule card_mono[OF finite_unvisited])
    with len show ?thesis by (auto simp: s')
  next
    case False
    with assms(2) pop obtain ns where ns: "neighbours m u = Inr ns"
      and f: "for_neighbours m d u ns (s\<lparr>heap := h, visited := insert u (visited s)\<rparr>) = Inr s'"
      by (auto simp: visit_def split: sum.splits)
    have v: "visited s' = insert u (visited s)" using for_neighbours_visited[OF f] by simp
    have hv: "snd ` set (heap s') \<subseteq> set ns \<union> snd ` set h"
      using for_neighbours_heap_vertices[OF f] by simp
    have "set ns \<subseteq> {..<length m}" using neighbours_bound[OF ns] by auto
    with hv sub have "unvisited m s' \<subseteq> unvisited m s - {u}"
      by (auto simp: unvisited_def v)
    moreover have "u \<in> unvisited m s" using inh False by (force simp: unvisited_def)
    ultimately have "unvisited m s' \<subset> unvisited m s" by auto
    then have "card (unvisited m s') < card (unvisited m s)"
      by (rule psubset_card_mono[OF finite_unvisited])
    then show ?thesis by simp
  qed
qed

text \<open>
  The proof rule of the loop: a property that holds at the start and that every
  iteration keeps, without raising, holds when the loop ends, which it does.
\<close>

lemma relaxation_loop_rule:
  assumes "P s"
    and step: "\<And>s. P s \<Longrightarrow> heap s \<noteq> [] \<Longrightarrow> \<exists>s'. visit m s = Inr s' \<and> P s'"
  shows "\<exists>t. relaxation_loop m s = Some (Inr t) \<and> P t \<and> heap t = []"
  using assms(1)
proof (induction s rule: wf_induct_rule[OF wf_measures[of "[\<lambda>s. card (unvisited m s), \<lambda>s. length (heap s)]"]])
  case (1 s)
  show ?case
  proof (cases "heap s = []")
    case True
    with 1(2) show ?thesis by (subst relaxation_loop.simps) simp
  next
    case False
    from step[OF 1(2) False] obtain s' where s': "visit m s = Inr s'" "P s'" by blast
    from 1(1)[OF visit_decreases[OF False s'(1)] s'(2)] show ?thesis
      using False s' by (subst relaxation_loop.simps) simp
  qed
qed

text \<open>The loop ends from every state and for every matrix: it returns a state or raises.\<close>

lemma relaxation_loop_returns: "\<exists>r. relaxation_loop matrix s = Some r"
proof (induction s rule: wf_induct_rule[OF wf_measures[of "[\<lambda>s. card (unvisited matrix s), \<lambda>s. length (heap s)]"]])
  case (1 s)
  show ?case
  proof (cases "heap s = []")
    case True
    then show ?thesis by (subst relaxation_loop.simps) simp
  next
    case False
    show ?thesis
    proof (cases "visit matrix s")
      case (Inl e)
      with False show ?thesis by (subst relaxation_loop.simps) simp
    next
      case (Inr s')
      from 1[OF visit_decreases[OF False Inr]] show ?thesis
        using False Inr by (subst relaxation_loop.simps) simp
    qed
  qed
qed

section \<open>The source vertex\<close>

text \<open>
  C7, as stated, fails: with an empty matrix the vertex \<open>0\<close> is outside \<open>[0, V)\<close>, and
  \<^verbatim>\<open>dijkstra\<close> still runs and returns without any error.
\<close>

theorem no_invalid_vertex_counterexample:
  "dijkstra [] [] = Some (Inr ([], [])) \<and> (\<forall>e. dijkstra [] [] \<noteq> Some (Inl e))"
  by (simp add: dijkstra_def initial_state_def relaxation_loop.simps visit_def heappop_def
      neighbours_def)

text \<open>
  C7, amended. \<^verbatim>\<open>dijkstra\<close> takes no source: it always starts from vertex \<open>0\<close> and checks
  no range. On an empty matrix it visits vertex \<open>0\<close>, raises nothing and returns the
  distance vector it was given, unchanged, with an empty report. The only failure for
  an empty matrix is the \<^verbatim>\<open>IndexError\<close> of the module-level \<^verbatim>\<open>distance_vector[0] = 0\<close>.
\<close>

theorem source_is_fixed_and_unchecked:
  "dijkstra [] dv = Some (Inr ([], dv)) \<and>
   relaxation_loop [] (initial_state [] dv) =
     Some (Inr \<lparr>visited = {0}, heap = [], distance_vector = dv, previous = []\<rparr>) \<and>
   module_distance_vector [] = Inl IndexError"
  by (simp add: dijkstra_def initial_state_def relaxation_loop.simps visit_def heappop_def
      neighbours_def module_distance_vector_def)

lemma for_neighbours_prefix_rule:
  assumes "for_neighbours m d u vs s = Inr s'" and "Q pre s"
    and "\<And>v pre s s1. Q pre s \<Longrightarrow> v \<in> set vs \<Longrightarrow> relax m d u v s = Inr s1 \<Longrightarrow> Q (pre @ [v]) s1"
  shows "Q (pre @ vs) s'"
  using assms
proof (induction vs arbitrary: s pre)
  case Nil
  then show ?case by simp
next
  case (Cons v vs)
  from Cons.prems(1) obtain s1 where r: "relax m d u v s = Inr s1"
    and f: "for_neighbours m d u vs s1 = Inr s'"
    by (auto split: sum.splits)
  have "Q (pre @ [v]) s1" using Cons.prems(2,3) r by simp
  from Cons.IH[OF f this] Cons.prems(3) show ?case by simp
qed

lemma for_neighbours_rule:
  assumes "for_neighbours m d u vs s = Inr s'" and "Q s"
    and "\<And>v s s1. Q s \<Longrightarrow> v \<in> set vs \<Longrightarrow> relax m d u v s = Inr s1 \<Longrightarrow> Q s1"
  shows "Q s'"
  using for_neighbours_prefix_rule[where Q = "\<lambda>_. Q" and pre = "[]", OF assms(1,2)] assms(3)
  by blast

lemma relax_lengths:
  "relax m d u v s = Inr s' \<Longrightarrow>
   length (distance_vector s') = length (distance_vector s) \<and> length (previous s') = length (previous s)"
  by (drule relax_cases) auto

lemma relax_wf: "relax m d u v s = Inr s' \<Longrightarrow> wf_state m s \<Longrightarrow> v < length m \<Longrightarrow> wf_state m s'"
  by (drule relax_cases) (auto simp: wf_state_def)

lemma relax_ok:
  assumes "square m" "wf_state m s" "u < length m" "v < length m" "m ! u ! v \<noteq> 0"
  shows "\<exists>s'. relax m d u v s = Inr s'"
  using assms by (simp add: relax_def distance_def square_row wf_state_def Let_def)

lemma for_neighbours_ok:
  assumes "square m" "u < length m" "\<forall>v\<in>set vs. v < length m \<and> m ! u ! v \<noteq> 0" "wf_state m s"
  shows "\<exists>s'. for_neighbours m d u vs s = Inr s'"
  using assms(3,4)
proof (induction vs arbitrary: s)
  case Nil
  then show ?case by simp
next
  case (Cons v vs)
  from Cons.prems have v: "v < length m" "m ! u ! v \<noteq> 0" by auto
  from relax_ok[OF assms(1) Cons.prems(2) assms(2) v] obtain s1 where
    s1: "relax m d u v s = Inr s1" by blast
  from relax_wf[OF s1 Cons.prems(2) v(1)] have "wf_state m s1" .
  with Cons.IH Cons.prems(1) s1 show ?case by auto
qed

lemma visit_ok:
  assumes "square m" "wf_state m s" "heap s \<noteq> []"
  shows "\<exists>s'. visit m s = Inr s'"
proof -
  obtain d u h where pop: "heappop (heap s) = ((d, u), h)"
    by (metis prod.exhaust)
  from heappop_in[OF assms(3) pop] have inh: "(d, u) \<in> set (heap s)" and h: "h = remove1 (d, u) (heap s)"
    by auto
  have u: "u < length m" using inh assms(2) by (auto simp: wf_state_def)
  have "wf_state m (s\<lparr>heap := h, visited := insert u (visited s)\<rparr>)"
    using assms(2) h by (auto simp: wf_state_def dest: notin_set_remove1)
  from for_neighbours_ok[OF assms(1) u _ this, of "filter (\<lambda>j. m ! u ! j \<noteq> 0) [0..<length m]" d]
  show ?thesis using pop
    by (auto simp: visit_def neighbours_filter[OF assms(1) u])
qed

lemma visit_cases:
  assumes "heap s \<noteq> []" "visit m s = Inr s'"
  obtains (stale) d u where "(d, u) \<in> set (heap s)" "\<forall>y\<in>set (heap s). (d, u) \<le> y" "u \<in> visited s"
      "s' = s\<lparr>heap := remove1 (d, u) (heap s)\<rparr>"
  | (fresh) d u ns where "(d, u) \<in> set (heap s)" "\<forall>y\<in>set (heap s). (d, u) \<le> y" "u \<notin> visited s"
      "neighbours m u = Inr ns"
      "for_neighbours m d u ns (s\<lparr>heap := remove1 (d, u) (heap s), visited := insert u (visited s)\<rparr>) = Inr s'"
proof -
  obtain d u h where pop: "heappop (heap s) = ((d, u), h)"
    by (metis prod.exhaust)
  from heappop_in[OF assms(1) pop] have *: "(d, u) \<in> set (heap s)" "h = remove1 (d, u) (heap s)"
     "\<forall>y\<in>set (heap s). (d, u) \<le> y"
    by auto
  show thesis
  proof (cases "u \<in> visited s")
    case True
    with assms(2) pop * show ?thesis by (intro stale[of d u]) (auto simp: visit_def)
  next
    case False
    with assms(2) pop * show ?thesis
      by (cases "neighbours m u") (auto simp: visit_def intro: fresh[of d u])
  qed
qed

lemma visit_wf:
  assumes "heap s \<noteq> []" "visit m s = Inr s'" "wf_state m s"
  shows "wf_state m s'"
  using assms(1,2)
proof (cases rule: visit_cases)
  case (stale d u)
  then show ?thesis using assms(3) by (auto simp: wf_state_def dest: notin_set_remove1)
next
  case (fresh d u ns)
  have "wf_state m (s\<lparr>heap := remove1 (d, u) (heap s), visited := insert u (visited s)\<rparr>)"
    using assms(3) by (auto simp: wf_state_def dest: notin_set_remove1)
  with fresh(5) show ?thesis
    by (rule for_neighbours_rule) (auto intro: relax_wf dest: neighbours_bound[OF fresh(4)])
qed

lemma rooted_mono: "rooted prev V u \<Longrightarrow> V \<subseteq> V' \<Longrightarrow> rooted prev V' u"
  by (induction rule: rooted.induct) (auto intro: rooted.intros)

lemma rooted_update:
  "rooted prev V u \<Longrightarrow> v \<notin> V \<Longrightarrow> rooted (prev[v := x]) V u"
proof (induction rule: rooted.induct)
  case (root u)
  then have "u \<noteq> v" by auto
  with root show ?case by (auto intro!: rooted.root)
next
  case (child u p)
  then have "u \<noteq> v" by auto
  with child show ?case by (auto intro: rooted.child[where p = p])
qed

lemma relax_prev_inv:
  assumes "relax m d u v s = Inr s'" "prev_inv s" "u \<in> visited s" "length (previous s) = length m"
  shows "prev_inv s'"
proof -
  from relax_cases[OF assms(1)] show ?thesis
  proof
    assume "s' = s" with assms(2) show ?thesis by simp
  next
    assume "\<exists>w. v \<notin> visited s \<and> distance m u v = Inr (Some w) \<and> v < length (distance_vector s) \<and>
              v < length (previous s) \<and> Fin (d + w) < distance_vector s ! v \<and>
              s' = s\<lparr>distance_vector := (distance_vector s)[v := Fin (d + w)],
                     previous := (previous s)[v := Some u],
                     heap := (d + w, v) # heap s\<rparr>"
    then obtain w where v: "v \<notin> visited s" "v < length (previous s)"
      and dist: "distance m u v = Inr (Some w)"
      and s': "previous s' = (previous s)[v := Some u]" "visited s' = visited s" by auto
    from dist have u: "u < length m" by (auto simp: distance_def split: if_splits)
    have 1: "x \<in> visited s' \<and> x < length (previous s')"
      if "y < length (previous s')" "previous s' ! y = Some x" for x y
    proof (cases "y = v")
      case True
      with that v u assms(3,4) show ?thesis by (simp add: s')
    next
      case False
      with that assms(2) show ?thesis by (simp add: s' prev_inv_def)
    qed
    have 2: "rooted (previous s') (visited s') x" if "x \<in> visited s'" "x < length (previous s')" for x
      using that assms(2) v(1) by (simp add: s' prev_inv_def rooted_update)
    from 1 2 show ?thesis unfolding prev_inv_def by blast
  qed
qed

lemma visit_prev_inv:
  assumes "heap s \<noteq> []" "visit m s = Inr s'" "prev_inv s" "length (previous s) = length m"
  shows "prev_inv s' \<and> length (previous s') = length m"
  using assms(1,2)
proof (cases rule: visit_cases)
  case (stale d u)
  then show ?thesis using assms(3,4) by (auto simp: prev_inv_def)
next
  case (fresh d u ns)
  let ?s0 = "s\<lparr>heap := remove1 (d, u) (heap s), visited := insert u (visited s)\<rparr>"
  have r: "rooted (previous s) (insert u (visited s)) x" if "x \<in> visited s" "x < length (previous s)" for x
    using assms(3) that by (auto simp: prev_inv_def intro: rooted_mono)
  have "rooted (previous s) (insert u (visited s)) u" if "u < length (previous s)"
  proof (cases "previous s ! u")
    case None
    with that show ?thesis by (auto intro: rooted.root)
  next
    case (Some p)
    with assms(3) that have "p \<in> visited s" "p < length (previous s)" by (auto simp: prev_inv_def)
    with r[of p] Some that show ?thesis by (auto intro: rooted.child)
  qed
  with r assms(3) have "prev_inv ?s0" by (auto simp: prev_inv_def)
  then have "prev_inv ?s0 \<and> u \<in> visited ?s0 \<and> length (previous ?s0) = length m" using assms(4) by simp
  with fresh(5) have "prev_inv s' \<and> u \<in> visited s' \<and> length (previous s') = length m"
  proof (rule for_neighbours_rule)
    fix v s s1
    assume a: "prev_inv s \<and> u \<in> visited s \<and> length (previous s) = length m" "relax m d u v s = Inr s1"
    from relax_prev_inv[OF a(2)] a(1) relax_visited[OF a(2)] relax_lengths[OF a(2)]
    show "prev_inv s1 \<and> u \<in> visited s1 \<and> length (previous s1) = length m" by simp
  qed
  then show ?thesis by simp
qed

section \<open>Paths and the distances the loop stores\<close>

lemma is_path_last: "is_path m p \<Longrightarrow> last p < length m"
  by (induction m p rule: is_path.induct) auto

lemma is_path_snoc:
  "is_path m (p @ [v]) \<longleftrightarrow> v < length m \<and> (p = [] \<or> (is_path m p \<and> m ! last p ! v \<noteq> 0))"
  by (induction m p rule: is_path.induct) auto

lemma path_weight_snoc:
  "p \<noteq> [] \<Longrightarrow> path_weight m (p @ [v]) = path_weight m p + m ! last p ! v"
  by (induction m p rule: path_weight.induct) auto

lemma nonneg_entry: "nonneg m \<Longrightarrow> square m \<Longrightarrow> i < length m \<Longrightarrow> j < length m \<Longrightarrow> 0 \<le> m ! i ! j"
  by (simp add: nonneg_def square_def list_all_length)

lemma path_weight_nonneg:
  "nonneg m \<Longrightarrow> square m \<Longrightarrow> is_path m p \<Longrightarrow> 0 \<le> path_weight m p"
proof (induction m p rule: is_path.induct)
  case (3 m x y p)
  then have "y < length m" by (cases p) auto
  with 3 show ?case by (auto simp: nonneg_entry)
qed auto

lemma reach_source: "m \<noteq> [] \<Longrightarrow> reach m 0 0"
  unfolding reach_def source_path_def by (rule exI[of _ "[0]"]) simp

lemma reach_edge:
  assumes "reach m u d" "v < length m" "m ! u ! v \<noteq> 0"
  shows "reach m v (d + m ! u ! v)"
proof -
  from assms(1) obtain p where p: "is_path m p" "hd p = 0" "last p = u" "path_weight m p = d"
    by (auto simp: reach_def source_path_def)
  then have ne: "p \<noteq> []" by auto
  have "source_path m (p @ [v]) v" using p ne assms(2,3)
    by (simp add: source_path_def is_path_snoc)
  moreover have "path_weight m (p @ [v]) = d + m ! u ! v" using p ne by (simp add: path_weight_snoc)
  ultimately show ?thesis unfolding reach_def by blast
qed

lemma reach_vertex: "reach m v d \<Longrightarrow> v < length m"
  by (auto simp: reach_def source_path_def dest: is_path_last)

lemma reach_nonneg: "nonneg m \<Longrightarrow> square m \<Longrightarrow> reach m v d \<Longrightarrow> 0 \<le> d"
  by (auto simp: reach_def source_path_def path_weight_nonneg)

lemma relax_elim:
  assumes "relax m d u v s = Inr s'"
  obtains (skip) "v \<in> visited s" "s' = s"
  | (keep) w where "v \<notin> visited s" "distance m u v = Inr (Some w)" "v < length (distance_vector s)"
       "distance_vector s ! v \<le> Fin (d + w)" "s' = s"
  | (update) w where "v \<notin> visited s" "distance m u v = Inr (Some w)" "v < length (distance_vector s)"
       "v < length (previous s)" "Fin (d + w) < distance_vector s ! v"
       "s' = s\<lparr>distance_vector := (distance_vector s)[v := Fin (d + w)],
              previous := (previous s)[v := Some u],
              heap := (d + w, v) # heap s\<rparr>"
proof (cases "v \<in> visited s")
  case True
  with assms show ?thesis by (intro skip) (simp_all add: relax_def)
next
  case False
  from relax_cases[OF assms] show ?thesis
  proof
    assume eq: "s' = s"
    from assms False obtain w where w: "distance m u v = Inr (Some w)"
      by (auto simp: relax_def split: sum.splits option.splits)
    have "heap s' \<noteq> heap s" if "s' = s\<lparr>distance_vector := (distance_vector s)[v := Fin (d + w)],
              previous := (previous s)[v := Some u], heap := (d + w, v) # heap s\<rparr>"
      by (subst that) simp
    with assms False w eq have "v < length (distance_vector s)" "\<not> Fin (d + w) < distance_vector s ! v"
      by (auto simp: relax_def Let_def heappush_def split: if_splits)
    then show ?thesis using False w eq by (intro keep[of w]) (simp_all add: not_less)
  next
    assume "\<exists>w. v \<notin> visited s \<and> distance m u v = Inr (Some w) \<and> v < length (distance_vector s) \<and>
              v < length (previous s) \<and> Fin (d + w) < distance_vector s ! v \<and>
              s' = s\<lparr>distance_vector := (distance_vector s)[v := Fin (d + w)],
                     previous := (previous s)[v := Some u],
                     heap := (d + w, v) # heap s\<rparr>"
    then obtain w where "v \<notin> visited s" "distance m u v = Inr (Some w)" "v < length (distance_vector s)"
       "v < length (previous s)" "Fin (d + w) < distance_vector s ! v"
       "s' = s\<lparr>distance_vector := (distance_vector s)[v := Fin (d + w)],
              previous := (previous s)[v := Some u],
              heap := (d + w, v) # heap s\<rparr>" by blast
    then show ?thesis by (rule update)
  qed
qed

lemma distance_Some: "distance m u v = Inr (Some w) \<Longrightarrow> u < length m \<and> w = m ! u ! v \<and> w \<noteq> 0"
  by (auto simp: distance_def split: if_splits)

lemma relax_sound:
  assumes "relax m d u v s = Inr s'" "sound m s" "reach m u d" "v < length m"
  shows "sound m s'"
  using assms(1)
proof (cases rule: relax_elim)
  case (update w)
  from distance_Some[OF update(2)] have w: "w = m ! u ! v" "m ! u ! v \<noteq> 0" by auto
  from reach_edge[OF assms(3,4) w(2)] have r: "reach m v (d + w)" by (simp add: w)
  have "reach m x e" if "x < length m" "distance_vector s' ! x = Fin e" for x e
  proof (cases "x = v")
    case True
    with that update(3) r show ?thesis by (simp add: update(6))
  next
    case False
    with that assms(2) show ?thesis by (simp add: update(6) sound_def)
  qed
  moreover have "\<forall>x\<in>set (heap s'). reach m (snd x) (fst x)"
    using assms(2) r by (simp add: update(6) sound_def)
  ultimately show ?thesis unfolding sound_def by blast
qed (use assms(2) in auto)

lemma visit_sound:
  assumes "heap s \<noteq> []" "visit m s = Inr s'" "sound m s"
  shows "sound m s'"
  using assms(1,2)
proof (cases rule: visit_cases)
  case (stale d u)
  then show ?thesis using assms(3) by (auto simp: sound_def dest: notin_set_remove1)
next
  case (fresh d u ns)
  let ?s0 = "s\<lparr>heap := remove1 (d, u) (heap s), visited := insert u (visited s)\<rparr>"
  have r: "reach m u d" using fresh(1) assms(3) by (auto simp: sound_def)
  have "sound m ?s0" using assms(3) by (auto simp: sound_def dest: notin_set_remove1)
  with fresh(5) show ?thesis
    by (rule for_neighbours_rule) (auto intro: relax_sound[OF _ _ r] dest: neighbours_bound[OF fresh(4)])
qed

lemma init_vector_nth:
  "v < n \<Longrightarrow> init_vector n ! v = (if v = 0 then Fin 0 else Infinity)"
  by (simp add: init_vector_def nth_list_update)

lemma length_init_vector: "length (init_vector n) = n"
  by (simp add: init_vector_def)

lemma sound_initial: "m \<noteq> [] \<Longrightarrow> sound m (initial_state m (init_vector (length m)))"
  by (auto simp: sound_def initial_state_def init_vector_nth reach_source split: if_splits)

section \<open>Visited vertices hold shortest distances\<close>



lemma Fin_le_iff: "x \<le> Fin b \<longleftrightarrow> (\<exists>a. x = Fin a \<and> a \<le> b)"
  by (cases x) auto

lemma Fin_less_Fin [simp]: "Fin a < Fin b \<longleftrightarrow> a < b"
  by (auto simp: less_dist_def)

text \<open>
  Along a source path, either its end is visited and holds at most the weight of the
  path, or some vertex that is not visited holds at most that weight.
\<close>

lemma first_unvisited:
  assumes inv: "dijkstra_inv m s" and nn: "nonneg m" and sq: "square m"
    and p: "is_path m p" "hd p = 0"
  shows "(last p \<in> visited s \<and> distance_vector s ! last p \<le> Fin (path_weight m p)) \<or>
         (\<exists>x d. x < length m \<and> x \<notin> visited s \<and> distance_vector s ! x = Fin d \<and> d \<le> path_weight m p)"
  using p
proof (induction p rule: rev_induct)
  case Nil
  then show ?case by simp
next
  case (snoc v p)
  from inv have opt: "opt_inv m s" by (simp add: dijkstra_inv_def)
  show ?case
  proof (cases "p = []")
    case True
    with snoc.prems have v: "v = 0" "0 < length m" by auto
    from opt have "distance_vector s ! 0 = Fin 0" by (simp add: opt_inv_def)
    with v True show ?thesis by (cases "0 \<in> visited s") auto
  next
    case False
    with snoc.prems have pp: "is_path m p" "hd p = 0" and v: "v < length m"
      and e: "m ! last p ! v \<noteq> 0"
      by (auto simp: is_path_snoc)
    let ?x = "last p" and ?c = "m ! last p ! v"
    have x: "?x < length m" using pp(1) by (rule is_path_last)
    have c: "0 \<le> ?c" using nn sq x v by (rule nonneg_entry)
    have w: "path_weight m (p @ [v]) = path_weight m p + ?c" using False by (rule path_weight_snoc)
    from snoc.IH[OF pp] show ?thesis
    proof
      assume a: "?x \<in> visited s \<and> distance_vector s ! ?x \<le> Fin (path_weight m p)"
      then obtain dx where dx: "distance_vector s ! ?x = Fin dx" "dx \<le> path_weight m p"
        by (auto simp: Fin_le_iff)
      from inv a v have "relaxed m s ?x v" by (simp add: dijkstra_inv_def)
      with dx e have "distance_vector s ! v \<le> Fin (dx + ?c)" by (simp add: relaxed_def)
      then obtain dv where dv: "distance_vector s ! v = Fin dv" "dv \<le> dx + ?c"
        by (auto simp: Fin_le_iff)
      with dx w have "dv \<le> path_weight m (p @ [v])" by simp
      with dv v show ?thesis by (cases "v \<in> visited s") auto
    next
      assume "\<exists>x d. x < length m \<and> x \<notin> visited s \<and> distance_vector s ! x = Fin d \<and> d \<le> path_weight m p"
      then obtain x d where "x < length m" "x \<notin> visited s" "distance_vector s ! x = Fin d"
        "d \<le> path_weight m p" by blast
      with c w show ?thesis by (intro disjI2 exI[of _ x] exI[of _ d]) simp
    qed
  qed
qed

text \<open>The least frontier entry of a vertex that is not visited is its shortest distance.\<close>

lemma popped_is_shortest:
  assumes inv: "dijkstra_inv m s" and nn: "nonneg m" and sq: "square m"
    and inh: "(d, u) \<in> set (heap s)" and least: "\<forall>y\<in>set (heap s). (d, u) \<le> y"
    and u: "u \<notin> visited s"
  shows "distance_vector s ! u = Fin d \<and> (\<forall>p. source_path m p u \<longrightarrow> d \<le> path_weight m p)"
proof -
  from inv have opt: "opt_inv m s" and wf: "wf_state m s" by (simp_all add: dijkstra_inv_def)
  from wf inh have un: "u < length m" by (auto simp: wf_state_def)
  have low: "d \<le> e" if "x < length m" "x \<notin> visited s" "distance_vector s ! x = Fin e" for x e
  proof -
    from opt that have "(e, x) \<in> set (heap s)" by (simp add: opt_inv_def)
    with least have "(d, u) \<le> (e, x)" by blast
    then show ?thesis by (auto simp: less_eq_prod_def)
  qed
  from opt inh have "distance_vector s ! u \<le> Fin d" by (auto simp: opt_inv_def)
  then obtain d0 where d0: "distance_vector s ! u = Fin d0" "d0 \<le> d" by (auto simp: Fin_le_iff)
  from low[OF un u d0(1)] d0 have eq: "distance_vector s ! u = Fin d" by simp
  have "d \<le> path_weight m p" if "source_path m p u" for p
  proof -
    from that have p: "is_path m p" "hd p = 0" "last p = u" by (simp_all add: source_path_def)
    from first_unvisited[OF inv nn sq p(1,2)] u p(3)
    obtain x e where "x < length m" "x \<notin> visited s" "distance_vector s ! x = Fin e"
      "e \<le> path_weight m p" by auto
    with low[of x e] show ?thesis by simp
  qed
  with eq show ?thesis by blast
qed


lemma relaxed_mono:
  assumes "relaxed m s x y" "distance_vector s' ! x = distance_vector s ! x"
    "distance_vector s' ! y \<le> distance_vector s ! y"
  shows "relaxed m s' x y"
  using assms unfolding relaxed_def by (metis order_trans)

lemma relax_opt:
  assumes r: "relax m d u v s = Inr s'"
    and nn: "nonneg m" and sq: "square m"
    and wf: "wf_state m s" and so: "sound m s" and opt: "opt_inv m s"
    and uv: "u \<in> visited s" and du: "distance_vector s ! u = Fin d"
    and v: "v < length m" and e: "m ! u ! v \<noteq> 0"
  shows "opt_inv m s' \<and> relaxed m s' u v \<and> distance_vector s' ! u = Fin d \<and>
         (\<forall>x\<in>visited s. \<forall>y. relaxed m s x y \<longrightarrow> relaxed m s' x y)"
proof -
  from opt uv have un: "u < length m" by (simp add: opt_inv_def)
  from so un du have ru: "reach m u d" by (simp add: sound_def)
  from reach_edge[OF ru v e] have rv: "reach m v (d + m ! u ! v)" .
  from r show ?thesis
  proof (cases rule: relax_elim)
    case skip
    from opt skip(1) obtain dv where dv: "distance_vector s ! v = Fin dv"
      "\<forall>p. source_path m p v \<longrightarrow> dv \<le> path_weight m p" by (auto simp: opt_inv_def)
    with rv have "dv \<le> d + m ! u ! v" by (auto simp: reach_def)
    with dv(1) have "relaxed m s u v" by (simp add: relaxed_def du)
    with opt du skip(2) show ?thesis by simp
  next
    case (keep w)
    from distance_Some[OF keep(2)] keep(4) have "relaxed m s u v" by (simp add: relaxed_def du)
    with opt du keep(5) show ?thesis by simp
  next
    case (update w)
    from distance_Some[OF update(2)] have w: "w = m ! u ! v" by simp
    let ?a = "d + w"
    have dv': "distance_vector s' = (distance_vector s)[v := Fin ?a]"
      and h': "heap s' = (?a, v) # heap s" and vis: "visited s' = visited s"
      by (simp_all add: update(6))
    have same: "distance_vector s' ! x = distance_vector s ! x" if "x \<noteq> v" for x
      using that by (simp add: dv')
    have atv: "distance_vector s' ! v = Fin ?a" using update(3) by (simp add: dv')
    have le: "distance_vector s' ! x \<le> distance_vector s ! x" for x
    proof (cases "x = v")
      case True
      with atv update(5) show ?thesis by simp
    next
      case False
      then show ?thesis by (simp add: same)
    qed
    have uv': "u \<noteq> v" using uv update(1) by auto
    have "0 \<le> ?a" using reach_nonneg[OF nn sq rv] by (simp add: w)
    moreover from opt have d0: "distance_vector s ! 0 = Fin 0" by (simp add: opt_inv_def)
    ultimately have v0: "v \<noteq> 0" using update(5) by (cases "v = 0") simp_all
    have 1: "distance_vector s' ! 0 = Fin 0" using v0 d0 by (simp add: same)
    have 2: "distance_vector s' ! snd x \<le> Fin (fst x)" if "x \<in> set (heap s')" for x
    proof (cases "x = (?a, v)")
      case True
      with atv show ?thesis by simp
    next
      case False
      with that h' have "x \<in> set (heap s)" by simp
      with opt have "distance_vector s ! snd x \<le> Fin (fst x)" by (simp add: opt_inv_def)
      with le[of "snd x"] show ?thesis by (rule order_trans)
    qed
    have 3: "(e, x) \<in> set (heap s')"
      if "x < length m" "x \<notin> visited s'" "distance_vector s' ! x = Fin e" for x e
    proof (cases "x = v")
      case True
      with that atv show ?thesis by (simp add: h')
    next
      case False
      with that opt show ?thesis by (simp add: same vis h' opt_inv_def)
    qed
    have 4: "x < length m \<and> (\<exists>e. distance_vector s' ! x = Fin e \<and>
               (\<forall>p. source_path m p x \<longrightarrow> e \<le> path_weight m p))" if "x \<in> visited s'" for x
    proof -
      from that update(1) have "x \<noteq> v" by (auto simp: vis)
      with that opt show ?thesis by (simp add: same vis opt_inv_def)
    qed
    have o: "opt_inv m s'" unfolding opt_inv_def using 1 2 3 4 by blast
    have r1: "relaxed m s' u v" using atv by (simp add: relaxed_def same[OF uv'] du w)
    have r2: "relaxed m s' x y" if "x \<in> visited s" "relaxed m s x y" for x y
    proof -
      from that(1) update(1) have "x \<noteq> v" by auto
      from relaxed_mono[OF that(2) same[OF this] le] show ?thesis .
    qed
    from o r1 r2 same[OF uv'] du show ?thesis by simp
  qed
qed

lemma in_remove1_other: "x \<in> set h \<Longrightarrow> x \<noteq> y \<Longrightarrow> x \<in> set (remove1 y h)"
  by simp

lemma visit_dijkstra_inv:
  assumes ne: "heap s \<noteq> []" and vis: "visit m s = Inr s'" and inv: "dijkstra_inv m s"
    and nn: "nonneg m" and sq: "square m"
  shows "dijkstra_inv m s'"
proof -
  from inv have wf: "wf_state m s" and so: "sound m s" and opt: "opt_inv m s"
    and rel: "\<forall>u\<in>visited s. \<forall>v<length m. relaxed m s u v"
    by (simp_all add: dijkstra_inv_def)
  have wf': "wf_state m s'" using ne vis wf by (rule visit_wf)
  have so': "sound m s'" using ne vis so by (rule visit_sound)
  from ne vis show ?thesis
  proof (cases rule: visit_cases)
    case (stale d u)
    have "opt_inv m s'" using opt stale(3)
      unfolding opt_inv_def stale(4) by (auto dest: notin_set_remove1 intro!: in_remove1_other)
    moreover have "\<forall>x\<in>visited s'. \<forall>v<length m. relaxed m s' x v"
      using rel by (simp add: stale(4) relaxed_def)
    ultimately show ?thesis using wf' so' by (simp add: dijkstra_inv_def)
  next
    case (fresh d u ns)
    let ?V = "visited s"
    let ?s0 = "s\<lparr>heap := remove1 (d, u) (heap s), visited := insert u ?V\<rparr>"
    let ?Q = "\<lambda>pre t. wf_state m t \<and> sound m t \<and> opt_inv m t \<and> visited t = insert u ?V \<and>
        distance_vector t ! u = Fin d \<and> (\<forall>x\<in>?V. \<forall>y<length m. relaxed m t x y) \<and>
        (\<forall>y\<in>set pre. relaxed m t u y)"
    from popped_is_shortest[OF inv nn sq fresh(1,2,3)]
    have du: "distance_vector s ! u = Fin d"
      and best: "\<forall>p. source_path m p u \<longrightarrow> d \<le> path_weight m p" by auto
    from wf fresh(1) have un: "u < length m" by (auto simp: wf_state_def)
    have nsd: "ns = filter (\<lambda>j. m ! u ! j \<noteq> 0) [0..<length m]"
      using fresh(4) neighbours_filter[OF sq un] by simp
    have wf0: "wf_state m ?s0" using wf by (auto simp: wf_state_def dest: notin_set_remove1)
    have so0: "sound m ?s0" using so by (auto simp: sound_def dest: notin_set_remove1)
    have opt0: "opt_inv m ?s0"
      using opt fresh(3) du best un
      unfolding opt_inv_def by (auto dest: notin_set_remove1 intro!: in_remove1_other)
    have rel0: "\<forall>x\<in>?V. \<forall>y<length m. relaxed m ?s0 x y" using rel by (simp add: relaxed_def)
    have "?Q [] ?s0" using wf0 so0 opt0 rel0 du by simp
    with fresh(5) have "?Q ([] @ ns) s'"
    proof (rule for_neighbours_prefix_rule)
      fix v pre t t1
      assume q: "?Q pre t" and vin: "v \<in> set ns" and r: "relax m d u v t = Inr t1"
      from vin have v: "v < length m" "m ! u ! v \<noteq> 0" by (auto simp: nsd)
      from q have ru: "reach m u d" using un by (auto simp: sound_def)
      from q have uin: "u \<in> visited t" by simp
      from q relax_opt[OF r nn sq _ _ _ uin _ v]
      have o: "opt_inv m t1" "relaxed m t1 u v" "distance_vector t1 ! u = Fin d"
        "\<forall>x\<in>visited t. \<forall>y. relaxed m t x y \<longrightarrow> relaxed m t1 x y" by auto
      from q have "wf_state m t1" by (auto intro: relax_wf[OF r _ v(1)])
      moreover from q have "sound m t1" by (auto intro: relax_sound[OF r _ ru v(1)])
      moreover have "visited t1 = insert u ?V" using relax_visited[OF r] q by simp
      moreover have "\<forall>x\<in>?V. \<forall>y<length m. relaxed m t1 x y" using q o(4) by auto
      moreover have "\<forall>y\<in>set (pre @ [v]). relaxed m t1 u y" using q o(2,4) uin by auto
      ultimately show "?Q (pre @ [v]) t1" using o(1,3) by simp
    qed
    then have q: "?Q ns s'" by simp
    have "relaxed m s' u y" if "y < length m" for y
    proof (cases "m ! u ! y = 0")
      case True
      then show ?thesis by (simp add: relaxed_def)
    next
      case False
      with that have "y \<in> set ns" by (simp add: nsd)
      with q show ?thesis by simp
    qed
    with q show ?thesis by (auto simp: dijkstra_inv_def)
  qed
qed

section \<open>The run as a whole\<close>



lemma walk_rooted: "rooted prev V u \<Longrightarrow> \<exists>p. walk prev (Some u) acc = Some (Inr (acc @ u # p))"
proof (induction arbitrary: acc rule: rooted.induct)
  case (root u)
  then show ?case by (subst walk.simps) (simp add: walk.simps)
next
  case (child u p)
  from child.IH[of "acc @ [u]"] obtain q where
    "walk prev (Some p) (acc @ [u]) = Some (Inr ((acc @ [u]) @ p # q))" by blast
  with child.hyps show ?case by (subst walk.simps) simp
qed

lemma walk_target:
  assumes "prev_inv s" "t < length (previous s)"
  shows "\<exists>p. walk (previous s) (Some t) [] = Some (Inr (t # p))"
proof (cases "previous s ! t")
  case None
  with assms(2) show ?thesis by (subst walk.simps) (simp add: walk.simps)
next
  case (Some u)
  with assms have "rooted (previous s) (visited s) u" by (auto simp: prev_inv_def)
  from walk_rooted[OF this, of "[t]"] obtain p where
    "walk (previous s) (Some u) [t] = Some (Inr (t # u # p))" by auto
  with Some assms(2) show ?thesis by (subst walk.simps) simp
qed

lemma report_line_returns:
  assumes "prev_inv s" "t < length (previous s)" "t < length dv"
  shows "\<exists>l. report_line dv (previous s) t = Some (Inr l) \<and> line_for dv t l"
proof (cases "dv ! t = Infinity")
  case True
  with assms(3) show ?thesis by (simp add: report_line_def line_for_def)
next
  case False
  from walk_target[OF assms(1,2)] obtain p where "walk (previous s) (Some t) [] = Some (Inr (t # p))"
    by blast
  with False assms(3) show ?thesis by (simp add: report_line_def line_for_def)
qed

lemma report_returns:
  assumes "prev_inv s" "\<forall>t\<in>set ts. t < length (previous s) \<and> t < length dv"
  shows "\<exists>ls. report dv (previous s) ts = Some (Inr ls) \<and> list_all2 (line_for dv) ts ls"
  using assms(2)
proof (induction ts)
  case Nil
  then show ?case by simp
next
  case (Cons t ts)
  from Cons.prems report_line_returns[OF assms(1), of t dv] obtain l where
    l: "report_line dv (previous s) t = Some (Inr l)" "line_for dv t l" by auto
  from Cons obtain ls where "report dv (previous s) ts = Some (Inr ls)" "list_all2 (line_for dv) ts ls"
    by auto
  with l show ?case by simp
qed

lemma prev_inv_initial: "prev_inv (initial_state m dv)"
  by (simp add: prev_inv_def initial_state_def)

lemma wf_initial: "m \<noteq> [] \<Longrightarrow> length dv = length m \<Longrightarrow> wf_state m (initial_state m dv)"
  by (simp add: wf_state_def initial_state_def)

text \<open>
  The proof rule of \<^verbatim>\<open>dijkstra\<close> on a square matrix and a distance vector of its
  length: the run returns, and a property of the starting state that every iteration
  keeps holds of the state after the loop, whose distance vector is returned.
\<close>

lemma dijkstra_rule:
  assumes sq: "square m" and ne: "m \<noteq> []" and len: "length dv = length m"
    and init: "P (initial_state m dv)"
    and step: "\<forall>s s'. P s \<and> heap s \<noteq> [] \<and> visit m s = Inr s' \<longrightarrow> P s'"
  shows "\<exists>t ls. relaxation_loop m (initial_state m dv) = Some (Inr t) \<and> heap t = [] \<and> P t \<and>
           wf_state m t \<and> prev_inv t \<and>
           list_all2 (line_for (distance_vector t)) [0..<length m] ls \<and>
           dijkstra m dv = Some (Inr (ls, distance_vector t))"
proof -
  let ?Q = "\<lambda>s. wf_state m s \<and> (prev_inv s \<and> length (previous s) = length m) \<and> P s"
  have "?Q (initial_state m dv)"
    using wf_initial[OF ne len] prev_inv_initial init by (simp add: initial_state_def)
  moreover have "\<exists>s'. visit m s = Inr s' \<and> ?Q s'" if "?Q s" "heap s \<noteq> []" for s
  proof -
    from visit_ok[OF sq _ that(2)] that(1) obtain s' where s': "visit m s = Inr s'" by blast
    from step that s' have "P s'" by blast
    with visit_wf[OF that(2) s'] visit_prev_inv[OF that(2) s'] that(1) s'
    show ?thesis by blast
  qed
  ultimately obtain t where t: "relaxation_loop m (initial_state m dv) = Some (Inr t)"
    "?Q t" "heap t = []"
    using relaxation_loop_rule[of ?Q "initial_state m dv" m] by blast
  from t(2) have "\<forall>x\<in>set [0..<length m]. x < length (previous t) \<and> x < length (distance_vector t)"
    by (simp add: wf_state_def)
  with report_returns[of t "[0..<length m]" "distance_vector t"] t(2)
  obtain ls where ls: "report (distance_vector t) (previous t) [0..<length m] = Some (Inr ls)"
    "list_all2 (line_for (distance_vector t)) [0..<length m] ls" by blast
  from t ls have "dijkstra m dv = Some (Inr (ls, distance_vector t))" by (simp add: dijkstra_def)
  with t ls show ?thesis by blast
qed

lemma opt_initial: "m \<noteq> [] \<Longrightarrow> opt_inv m (initial_state m (init_vector (length m)))"
  by (auto simp: opt_inv_def initial_state_def init_vector_nth split: if_splits)

lemma dijkstra_inv_initial:
  "m \<noteq> [] \<Longrightarrow> dijkstra_inv m (initial_state m (init_vector (length m)))"
  using wf_initial[of m "init_vector (length m)"] sound_initial[of m] opt_initial[of m]
  by (simp add: dijkstra_inv_def length_init_vector) (simp add: initial_state_def)

text \<open>
  C1. On a square matrix without negative entries, for every vertex \<open>v\<close> that some
  path from vertex \<open>0\<close> reaches, \<^verbatim>\<open>dijkstra\<close>, called with the distance vector the
  module builds, returns, and the entry of \<open>v\<close> in the returned vector is the least
  weight of a path from vertex \<open>0\<close> to \<open>v\<close>: some such path has this weight and none
  has a smaller one.
\<close>

theorem dijkstra_shortest_distances:
  assumes "square matrix" and "nonneg matrix" and "source_path matrix p v"
  shows "\<exists>ls dv d. dijkstra matrix (init_vector (length matrix)) = Some (Inr (ls, dv)) \<and>
           length dv = length matrix \<and> dv ! v = Fin d \<and> shortest matrix v d"
proof -
  from assms(3) have p: "is_path matrix p" "hd p = 0" "last p = v" by (simp_all add: source_path_def)
  then have v: "v < length matrix" by (auto dest: is_path_last)
  then have ne: "matrix \<noteq> []" by auto
  have "\<forall>s s'. dijkstra_inv matrix s \<and> heap s \<noteq> [] \<and> visit matrix s = Inr s' \<longrightarrow>
      dijkstra_inv matrix s'"
    using visit_dijkstra_inv[OF _ _ _ assms(2,1)] by blast
  from dijkstra_rule[where P = "dijkstra_inv matrix", OF assms(1) ne length_init_vector
      dijkstra_inv_initial[OF ne] this]
  obtain t ls where t: "heap t = []" "dijkstra_inv matrix t"
    "dijkstra matrix (init_vector (length matrix)) = Some (Inr (ls, distance_vector t))"
    by blast
  from t(2) have opt: "opt_inv matrix t" and so: "sound matrix t" and wf: "wf_state matrix t"
    by (simp_all add: dijkstra_inv_def)
  from first_unvisited[OF t(2) assms(2,1) p(1,2)] opt t(1) p(3)
  have vis: "v \<in> visited t" by (auto simp: opt_inv_def)
  with opt obtain d where d: "distance_vector t ! v = Fin d"
    "\<forall>q. source_path matrix q v \<longrightarrow> d \<le> path_weight matrix q" by (auto simp: opt_inv_def)
  from so v d(1) have "reach matrix v d" by (simp add: sound_def)
  with d(2) have "shortest matrix v d" by (simp add: shortest_def reach_def)
  with t(3) d(1) wf show ?thesis by (auto simp: wf_state_def)
qed

theorem dijkstra_shortest_distances_witness:
  "square [[0, 1, 4, 0], [0, 0, 1, 5], [0, 0, 0, 1], [0, 0, 0, 0]] \<and>
   nonneg [[0, 1, 4, 0], [0, 0, 1, 5], [0, 0, 0, 1], [0, 0, 0, 0]] \<and>
   source_path [[0, 1, 4, 0], [0, 0, 1, 5], [0, 0, 0, 1], [0, 0, 0, 0]] [0, 1, 3] 3 \<and>
   shortest [[0, 1, 4, 0], [0, 0, 1, 5], [0, 0, 0, 1], [0, 0, 0, 0]] 3 3"
proof -
  let ?M = "[[0, 1, 4, 0], [0, 0, 1, 5], [0, 0, 0, 1], [0, 0, 0, 0 :: int]]"
  have h: "square ?M" "nonneg ?M" "source_path ?M [0, 1, 3] 3"
    by (simp_all add: square_def nonneg_def source_path_def)
  have run: "dijkstra ?M (init_vector (length ?M)) =
      Some (Inr ([PathTo 0 [0] (Fin 0), PathTo 1 [0, 1] (Fin 1), PathTo 2 [0, 1, 2] (Fin 2),
                  PathTo 3 [0, 1, 2, 3] (Fin 3)], [Fin 0, Fin 1, Fin 2, Fin 3]))"
    by code_simp
  from dijkstra_shortest_distances[OF h] run have "shortest ?M 3 3" by auto
  with h show ?thesis by simp
qed

lemma no_incoming_edge:
  assumes "\<forall>x<length m. m ! x ! v = 0" "v \<noteq> 0"
  shows "\<not> source_path m p v"
proof
  assume a: "source_path m p v"
  then have "p \<noteq> []" by (auto simp: source_path_def)
  then obtain q where q: "p = q @ [v]" using a
    by (metis append_butlast_last_id source_path_def)
  show False
  proof (cases "q = []")
    case True
    with a q assms(2) show ?thesis by (simp add: source_path_def)
  next
    case False
    with a q have "is_path m q" "m ! last q ! v \<noteq> 0" by (auto simp: source_path_def is_path_snoc)
    with assms(1) is_path_last[of m q] show ?thesis by auto
  qed
qed

text \<open>
  C6. On a square, non-empty matrix, for every vertex \<open>v\<close> that no path from vertex
  \<open>0\<close> reaches, \<^verbatim>\<open>dijkstra\<close>, called with the distance vector the module builds, returns
  without an error, the entry of \<open>v\<close> in the returned vector is still the infinite
  value, and the report line of \<open>v\<close> is the unreachable one.
\<close>

theorem unreachable_stays_infinite:
  assumes "square matrix" and "v < length matrix" and "\<not> (\<exists>p. source_path matrix p v)"
  shows "\<exists>ls dv. dijkstra matrix (init_vector (length matrix)) = Some (Inr (ls, dv)) \<and>
           dv ! v = Infinity \<and> ls ! v = Unreachable v"
proof -
  from assms(2) have ne: "matrix \<noteq> []" by auto
  have "\<forall>s s'. sound matrix s \<and> heap s \<noteq> [] \<and> visit matrix s = Inr s' \<longrightarrow> sound matrix s'"
    using visit_sound by blast
  from dijkstra_rule[where P = "sound matrix", OF assms(1) ne length_init_vector
      sound_initial[OF ne] this]
  obtain t ls where t: "sound matrix t"
    "list_all2 (line_for (distance_vector t)) [0..<length matrix] ls"
    "dijkstra matrix (init_vector (length matrix)) = Some (Inr (ls, distance_vector t))"
    by blast
  have inf: "distance_vector t ! v = Infinity"
  proof (cases "distance_vector t ! v")
    case (Fin d)
    with t(1) assms(2) have "reach matrix v d" by (simp add: sound_def)
    with assms(3) show ?thesis by (auto simp: reach_def)
  qed
  from list_all2_nthD[OF t(2), of v] assms(2) have "line_for (distance_vector t) v (ls ! v)" by simp
  with inf have "ls ! v = Unreachable v" by (simp add: line_for_def)
  with t(3) inf show ?thesis by blast
qed

theorem unreachable_stays_infinite_witness:
  "square [[0, 1, 4, 0, 0], [0, 0, 1, 5, 0], [0, 0, 0, 1, 0], [0, 0, 0, 0, 0], [0, 0, 0, 0, 0]] \<and>
   \<not> (\<exists>p. source_path [[0, 1, 4, 0, 0], [0, 0, 1, 5, 0], [0, 0, 0, 1, 0], [0, 0, 0, 0, 0], [0, 0, 0, 0, 0]] p 4) \<and>
   (\<exists>ls dv. dijkstra [[0, 1, 4, 0, 0], [0, 0, 1, 5, 0], [0, 0, 0, 1, 0], [0, 0, 0, 0, 0], [0, 0, 0, 0, 0]]
               (init_vector (length [[0, 1, 4, 0, 0], [0, 0, 1, 5, 0], [0, 0, 0, 1, 0], [0, 0, 0, 0, 0], [0, 0, 0, 0, 0 :: int]])) =
             Some (Inr (ls, dv)) \<and>
            dv ! 4 = Infinity \<and> ls ! 4 = Unreachable 4)"
proof -
  let ?M = "[[0, 1, 4, 0, 0], [0, 0, 1, 5, 0], [0, 0, 0, 1, 0], [0, 0, 0, 0, 0], [0, 0, 0, 0, 0 :: int]]"
  have sq: "square ?M" by (simp add: square_def)
  have "\<forall>x<length ?M. ?M ! x ! 4 = 0" by (simp add: less_Suc_eq numeral_eq_Suc all_conj_distrib)
  then have un: "\<not> (\<exists>p. source_path ?M p 4)" by (simp add: no_incoming_edge)
  have "4 < length ?M" by simp
  from unreachable_stays_infinite[OF sq this un] sq un show ?thesis by blast
qed

section \<open>Distances only decrease\<close>



lemma never_above_refl: "never_above dv dv"
  by (simp add: never_above_def list_all2_refl)

lemma never_above_trans: "never_above c b \<Longrightarrow> never_above b a \<Longrightarrow> never_above c a"
  unfolding never_above_def by (auto elim: list_all2_trans[rotated])

lemma never_above_update:
  "v < length dv \<Longrightarrow> a \<le> dv ! v \<Longrightarrow> never_above (dv[v := a]) dv"
  by (auto simp: never_above_def list_all2_conv_all_nth nth_list_update)

lemma relax_never_above:
  assumes "relax m d u v s = Inr s'"
  shows "never_above (distance_vector s') (distance_vector s)"
  using assms
proof (cases rule: relax_elim)
  case (update w)
  then show ?thesis by (simp add: never_above_update)
qed (simp_all add: never_above_refl)

lemma visit_never_above:
  assumes "heap s \<noteq> []" "visit m s = Inr s'"
  shows "never_above (distance_vector s') (distance_vector s)"
  using assms
proof (cases rule: visit_cases)
  case (stale d u)
  then show ?thesis by (simp add: never_above_refl)
next
  case (fresh d u ns)
  have "never_above (distance_vector (s\<lparr>heap := remove1 (d, u) (heap s), visited := insert u (visited s)\<rparr>))
          (distance_vector s)" by (simp add: never_above_refl)
  with fresh(5) show ?thesis
    by (rule for_neighbours_rule) (auto intro: never_above_trans dest: relax_never_above)
qed

lemma relaxation_loop_steps:
  assumes "relaxation_loop m s = Some (Inr t)"
    and refl: "\<And>s. heap s = [] \<Longrightarrow> R s s"
    and step: "\<And>s s'. heap s \<noteq> [] \<Longrightarrow> visit m s = Inr s' \<Longrightarrow> R s' t \<Longrightarrow> R s t"
  shows "R s t"
  using assms(1)
proof (induction s rule: wf_induct_rule[OF wf_measures[of "[\<lambda>s. card (unvisited m s), \<lambda>s. length (heap s)]"]])
  case (1 s)
  show ?case
  proof (cases "heap s = []")
    case True
    with 1(2) have "t = s" by (subst (asm) relaxation_loop.simps) simp
    with refl[OF True] show ?thesis by simp
  next
    case False
    with 1(2) obtain s' where s': "visit m s = Inr s'" "relaxation_loop m s' = Some (Inr t)"
      by (subst (asm) relaxation_loop.simps) (auto split: sum.splits)
    from 1(1)[OF visit_decreases[OF False s'(1)] s'(2)] have "R s' t" .
    with False s'(1) show ?thesis by (rule step)
  qed
qed

lemma relaxation_loop_never_above:
  assumes "relaxation_loop m s = Some (Inr t)"
  shows "never_above (distance_vector t) (distance_vector s)"
  using assms
proof (rule relaxation_loop_steps)
  fix s show "never_above (distance_vector s) (distance_vector s)" by (rule never_above_refl)
next
  fix s s' assume "heap s \<noteq> []" "visit m s = Inr s'"
    "never_above (distance_vector t) (distance_vector s')"
  then show "never_above (distance_vector t) (distance_vector s)"
    by (auto intro: never_above_trans visit_never_above)
qed

text \<open>
  C8. The distance vector is written in one place, the relaxation of a neighbour, and
  this step either leaves the vector as it is or replaces the entry of that neighbour
  by a strictly smaller value. So one iteration of the loop, and the loop as a whole,
  keep the length of the vector and leave every entry at most what it was.
\<close>

theorem distance_never_increases:
  "(relax matrix d u v s = Inr s' \<longrightarrow>
      distance_vector s' = distance_vector s \<or>
      (v < length (distance_vector s) \<and>
       distance_vector s' = (distance_vector s)[v := distance_vector s' ! v] \<and>
       distance_vector s' ! v < distance_vector s ! v)) \<and>
   (heap s \<noteq> [] \<and> visit matrix s = Inr s'' \<longrightarrow>
      never_above (distance_vector s'') (distance_vector s)) \<and>
   (relaxation_loop matrix s = Some (Inr t) \<longrightarrow>
      never_above (distance_vector t) (distance_vector s))"
proof (intro conjI impI)
  assume "relax matrix d u v s = Inr s'"
  then show "distance_vector s' = distance_vector s \<or>
      (v < length (distance_vector s) \<and>
       distance_vector s' = (distance_vector s)[v := distance_vector s' ! v] \<and>
       distance_vector s' ! v < distance_vector s ! v)"
    by (cases rule: relax_elim) simp_all
next
  assume "heap s \<noteq> [] \<and> visit matrix s = Inr s''"
  then show "never_above (distance_vector s'') (distance_vector s)"
    using visit_never_above by blast
next
  assume "relaxation_loop matrix s = Some (Inr t)"
  then show "never_above (distance_vector t) (distance_vector s)"
    by (rule relaxation_loop_never_above)
qed

theorem distance_never_increases_witness:
  "relax [[0, 2], [0, 0]] 0 0 1 \<lparr>visited = {0}, heap = [], distance_vector = [Fin 0, Infinity], previous = [None, None]\<rparr> =
     Inr \<lparr>visited = {0}, heap = [(2, 1)], distance_vector = [Fin 0, Fin 2], previous = [None, Some 0]\<rparr> \<and>
   Fin 2 < Infinity \<and>
   visit [[0, 2], [0, 0]] (initial_state [[0, 2], [0, 0]] (init_vector 2)) =
     Inr \<lparr>visited = {0}, heap = [(2, 1)], distance_vector = [Fin 0, Fin 2], previous = [None, Some 0]\<rparr> \<and>
   relaxation_loop [[0, 2], [0, 0]] (initial_state [[0, 2], [0, 0]] (init_vector 2)) =
     Some (Inr \<lparr>visited = {0, 1}, heap = [], distance_vector = [Fin 0, Fin 2], previous = [None, Some 0]\<rparr>) \<and>
   never_above [Fin 0, Fin 2] (init_vector 2)"
proof -
  let ?M = "[[0, 2], [0, 0 :: int]]"
  let ?s = "\<lparr>visited = {0}, heap = [], distance_vector = [Fin 0, Infinity], previous = [None, None]\<rparr>"
  let ?s1 = "\<lparr>visited = {0}, heap = [(2, 1)], distance_vector = [Fin 0, Fin 2], previous = [None, Some 0]\<rparr>"
  let ?t = "\<lparr>visited = {0, 1}, heap = [], distance_vector = [Fin 0, Fin 2], previous = [None, Some 0]\<rparr>"
  have r: "relax ?M 0 0 1 ?s = Inr ?s1"
    by (simp add: relax_def distance_def heappush_def less_dist_def)
  have v: "visit ?M (initial_state ?M (init_vector 2)) = Inr ?s1"
    by (simp add: visit_def initial_state_def init_vector_def heappop_def neighbours_def
        relax_def distance_def heappush_def less_dist_def eval_nat_numeral)
  have l: "relaxation_loop ?M (initial_state ?M (init_vector 2)) = Some (Inr ?t)"
    by code_simp
  from distance_never_increases[where matrix = ?M and d = 0 and u = 0 and v = 1 and s = ?s and s' = ?s1]
    distance_never_increases[where matrix = ?M and s = "initial_state ?M (init_vector 2)"
      and s'' = ?s1 and t = ?t] r v l
  have "Fin 2 < Infinity" "never_above [Fin 0, Fin 2] (init_vector 2)"
    by (simp_all add: initial_state_def init_vector_def eval_nat_numeral)
  with r v l show ?thesis by simp
qed

section \<open>A second run on the same distance vector\<close>



lemma relax_noop:
  assumes "v \<in> visited s \<or>
     (\<exists>w. distance m u v = Inr (Some w) \<and> v < length (distance_vector s) \<and>
          distance_vector s ! v \<le> Fin (d + w))"
  shows "relax m d u v s = Inr s"
  using assms by (auto simp: relax_def Let_def)

lemma for_neighbours_noop:
  assumes "\<forall>v\<in>set vs. v \<in> visited s \<or>
     (\<exists>w. distance m u v = Inr (Some w) \<and> v < length (distance_vector s) \<and>
          distance_vector s ! v \<le> Fin (d + w))"
  shows "for_neighbours m d u vs s = Inr s"
  using assms by (induction vs) (simp_all add: relax_noop)

lemma walk_no_predecessor:
  "t < n \<Longrightarrow> walk (replicate n None) (Some t) [] = Some (Inr [t])"
  by (subst walk.simps) (simp add: walk.simps)

lemma report_no_predecessor:
  assumes "\<forall>t\<in>set ts. t < n \<and> t < length dv"
  shows "report dv (replicate n None) ts =
     Some (Inr (map (\<lambda>t. if dv ! t = Infinity then Unreachable t else PathTo t [t] (dv ! t)) ts))"
  using assms by (induction ts) (simp_all add: report_line_def walk_no_predecessor)

text \<open>
  A run on a distance vector in which the entry of every neighbour of vertex \<open>0\<close> is
  at most the weight of its edge from vertex \<open>0\<close> visits vertex \<open>0\<close> only, changes
  nothing and records no predecessor.
\<close>

lemma settled_run:
  assumes sq: "square m" and ne: "m \<noteq> []" and len: "length dv = length m"
    and le: "\<forall>v<length m. m ! 0 ! v \<noteq> 0 \<longrightarrow> v = 0 \<or> dv ! v \<le> Fin (m ! 0 ! v)"
  shows "relaxation_loop m (initial_state m dv) =
           Some (Inr \<lparr>visited = {0}, heap = [], distance_vector = dv,
                      previous = replicate (length m) None\<rparr>) \<and>
         dijkstra m dv =
           Some (Inr (map (\<lambda>t. if dv ! t = Infinity then Unreachable t else PathTo t [t] (dv ! t))
                        [0..<length m], dv))"
proof -
  let ?s0 = "\<lparr>visited = {0}, heap = [], distance_vector = dv, previous = replicate (length m) None\<rparr>"
  from ne have 0: "0 < length m" by simp
  have ns: "neighbours m 0 = Inr (filter (\<lambda>j. m ! 0 ! j \<noteq> 0) [0..<length m])"
    using sq 0 by (rule neighbours_filter)
  have "for_neighbours m 0 0 (filter (\<lambda>j. m ! 0 ! j \<noteq> 0) [0..<length m]) ?s0 = Inr ?s0"
  proof (rule for_neighbours_noop, rule ballI)
    fix v assume "v \<in> set (filter (\<lambda>j. m ! 0 ! j \<noteq> 0) [0..<length m])"
    then have v: "v < length m" "m ! 0 ! v \<noteq> 0" by auto
    then have "distance m 0 v = Inr (Some (m ! 0 ! v))" using sq 0 by (simp add: distance_def square_row)
    with v le len show "v \<in> visited ?s0 \<or>
     (\<exists>w. distance m 0 v = Inr (Some w) \<and> v < length (distance_vector ?s0) \<and>
          distance_vector ?s0 ! v \<le> Fin (0 + w))" by auto
  qed
  with ns have v: "visit m (initial_state m dv) = Inr ?s0"
    by (simp add: visit_def initial_state_def heappop_def)
  have loop: "relaxation_loop m (initial_state m dv) = Some (Inr ?s0)"
    by (subst relaxation_loop.simps, simp add: v) (subst relaxation_loop.simps, simp add: initial_state_def)
  have "report dv (replicate (length m) None) [0..<length m] =
     Some (Inr (map (\<lambda>t. if dv ! t = Infinity then Unreachable t else PathTo t [t] (dv ! t)) [0..<length m]))"
    using len by (intro report_no_predecessor) simp
  with loop show ?thesis by (simp add: dijkstra_def)
qed

text \<open>
  C4, as stated, fails: on the matrix with the single edge \<open>(0, 1, 2)\<close> the first run
  ends with the predecessor table \<open>[None, 0]\<close> and leaves the distance vector \<open>[0, 2]\<close>;
  the second run, on this vector, ends with the predecessor table \<open>[None, None]\<close>.
\<close>

theorem second_run_predecessors_counterexample:
  "relaxation_loop [[0, 2], [0, 0]] (initial_state [[0, 2], [0, 0]] (init_vector 2)) =
     Some (Inr \<lparr>visited = {0, 1}, heap = [], distance_vector = [Fin 0, Fin 2],
                previous = [None, Some 0]\<rparr>) \<and>
   relaxation_loop [[0, 2], [0, 0]] (initial_state [[0, 2], [0, 0]] [Fin 0, Fin 2]) =
     Some (Inr \<lparr>visited = {0}, heap = [], distance_vector = [Fin 0, Fin 2],
                previous = [None, None]\<rparr>)"
  by code_simp

text \<open>
  C4, amended. On a square, non-empty matrix without negative entries, the first run
  (on the distance vector the module builds) returns a distance vector, and a second
  run on the vector the first run left returns the same distance vector. The
  predecessor table of the second run holds \<^verbatim>\<open>None\<close> everywhere and its report gives the
  single vertex \<open>t\<close> as the path to every target \<open>t\<close> with a finite distance.
\<close>

theorem second_run_same_distances:
  assumes "square matrix" and "nonneg matrix" and "matrix \<noteq> []"
  shows "\<exists>ls dv. dijkstra matrix (init_vector (length matrix)) = Some (Inr (ls, dv)) \<and>
           relaxation_loop matrix (initial_state matrix dv) =
             Some (Inr \<lparr>visited = {0}, heap = [], distance_vector = dv,
                        previous = replicate (length matrix) None\<rparr>) \<and>
           dijkstra matrix dv =
             Some (Inr (map (\<lambda>t. if dv ! t = Infinity then Unreachable t else PathTo t [t] (dv ! t))
                          [0..<length matrix], dv))"
proof -
  have "\<forall>s s'. dijkstra_inv matrix s \<and> heap s \<noteq> [] \<and> visit matrix s = Inr s' \<longrightarrow>
      dijkstra_inv matrix s'"
    using visit_dijkstra_inv[OF _ _ _ assms(2,1)] by blast
  from dijkstra_rule[where P = "dijkstra_inv matrix", OF assms(1,3) length_init_vector
      dijkstra_inv_initial[OF assms(3)] this]
  obtain t ls where t: "heap t = []" "dijkstra_inv matrix t"
    "dijkstra matrix (init_vector (length matrix)) = Some (Inr (ls, distance_vector t))"
    by blast
  let ?dv = "distance_vector t"
  from t(2) have opt: "opt_inv matrix t" and wf: "wf_state matrix t"
    and rel: "\<forall>u\<in>visited t. \<forall>v<length matrix. relaxed matrix t u v"
    by (simp_all add: dijkstra_inv_def)
  from assms(3) have 0: "0 < length matrix" by simp
  from opt have d0: "?dv ! 0 = Fin 0" by (simp add: opt_inv_def)
  with opt t(1) 0 have "0 \<in> visited t" by (auto simp: opt_inv_def)
  with rel d0 have "\<forall>v<length matrix. matrix ! 0 ! v \<noteq> 0 \<longrightarrow> v = 0 \<or> ?dv ! v \<le> Fin (matrix ! 0 ! v)"
    by (auto simp: relaxed_def)
  from settled_run[OF assms(1,3) _ this] wf t(3) show ?thesis by (auto simp: wf_state_def)
qed

theorem second_run_same_distances_witness:
  "square [[0, 1, 4, 0], [0, 0, 1, 5], [0, 0, 0, 1], [0, 0, 0, 0]] \<and>
   nonneg [[0, 1, 4, 0], [0, 0, 1, 5], [0, 0, 0, 1], [0, 0, 0, 0]] \<and>
   dijkstra [[0, 1, 4, 0], [0, 0, 1, 5], [0, 0, 0, 1], [0, 0, 0, 0]] [Fin 0, Fin 1, Fin 2, Fin 3] =
     Some (Inr ([PathTo 0 [0] (Fin 0), PathTo 1 [1] (Fin 1), PathTo 2 [2] (Fin 2),
                 PathTo 3 [3] (Fin 3)], [Fin 0, Fin 1, Fin 2, Fin 3]))"
proof -
  let ?M = "[[0, 1, 4, 0], [0, 0, 1, 5], [0, 0, 0, 1], [0, 0, 0, 0 :: int]]"
  have h: "square ?M" "nonneg ?M" "?M \<noteq> []"
    by (simp_all add: square_def nonneg_def)
  have run: "dijkstra ?M (init_vector (length ?M)) =
      Some (Inr ([PathTo 0 [0] (Fin 0), PathTo 1 [0, 1] (Fin 1), PathTo 2 [0, 1, 2] (Fin 2),
                  PathTo 3 [0, 1, 2, 3] (Fin 3)], [Fin 0, Fin 1, Fin 2, Fin 3]))"
    by code_simp
  from second_run_same_distances[OF h] run
  have "dijkstra ?M [Fin 0, Fin 1, Fin 2, Fin 3] =
     Some (Inr (map (\<lambda>t. if [Fin 0, Fin 1, Fin 2, Fin 3] ! t = Infinity then Unreachable t
                          else PathTo t [t] ([Fin 0, Fin 1, Fin 2, Fin 3] ! t)) [0..<length ?M],
                [Fin 0, Fin 1, Fin 2, Fin 3]))"
    by auto
  then have "dijkstra ?M [Fin 0, Fin 1, Fin 2, Fin 3] =
     Some (Inr ([PathTo 0 [0] (Fin 0), PathTo 1 [1] (Fin 1), PathTo 2 [2] (Fin 2),
                 PathTo 3 [3] (Fin 3)], [Fin 0, Fin 1, Fin 2, Fin 3]))"
    by (simp add: upt_rec)
  with h show ?thesis by simp
qed

section \<open>The walk along the predecessors\<close>




lemma chain_in: "chain prev A u \<Longrightarrow> u \<in> A"
  by (cases rule: chain.cases) auto










section \<open>What a run shares with its caller\<close>

text \<open>
  C9, as stated, fails: the first run changes the caller's distance vector from
  \<open>[0, inf]\<close> to \<open>[0, 2]\<close>, and a run on the vector it left reports the path \<open>[1]\<close> to
  vertex \<open>1\<close>, where a run on a fresh vector reports \<open>[0, 1]\<close>.
\<close>

theorem run_observes_previous_run_counterexample:
  "init_vector 2 = [Fin 0, Infinity] \<and>
   dijkstra [[0, 2], [0, 0]] [Fin 0, Infinity] =
     Some (Inr ([PathTo 0 [0] (Fin 0), PathTo 1 [0, 1] (Fin 2)], [Fin 0, Fin 2])) \<and>
   dijkstra [[0, 2], [0, 0]] [Fin 0, Fin 2] =
     Some (Inr ([PathTo 0 [0] (Fin 0), PathTo 1 [1] (Fin 2)], [Fin 0, Fin 2]))"
  by code_simp

text \<open>
  C9, amended. Three of the four structures are created in each call: the visited set
  starts empty, the frontier starts as \<open>[(0, 0)]\<close> and the predecessor table starts as
  \<^verbatim>\<open>None\<close> everywhere, whatever an earlier run left. The distance vector is not: it is
  the caller's list, taken as it is, and the list a call returns is this list after
  the updates of the loop, with the same length and no entry above the entry passed
  in. So a run reads and alters the distances an earlier run left.
\<close>

theorem distance_vector_is_callers_state:
  "visited (initial_state matrix dv) = {} \<and>
   heap (initial_state matrix dv) = [(0, 0)] \<and>
   previous (initial_state matrix dv) = replicate (length matrix) None \<and>
   distance_vector (initial_state matrix dv) = dv \<and>
   (dijkstra matrix dv = Some (Inr (ls, dv')) \<longrightarrow>
      (\<exists>t. relaxation_loop matrix (initial_state matrix dv) = Some (Inr t) \<and>
           dv' = distance_vector t) \<and>
      never_above dv' dv)"
proof (intro conjI impI)
  assume a: "dijkstra matrix dv = Some (Inr (ls, dv'))"
  then obtain t where t: "relaxation_loop matrix (initial_state matrix dv) = Some (Inr t)"
    "dv' = distance_vector t"
    by (auto simp: dijkstra_def split: option.splits sum.splits)
  then show "\<exists>t. relaxation_loop matrix (initial_state matrix dv) = Some (Inr t) \<and>
           dv' = distance_vector t" by blast
  from relaxation_loop_never_above[OF t(1)] t(2) show "never_above dv' dv"
    by (simp add: initial_state_def)
qed (simp_all add: initial_state_def)

theorem distance_vector_is_callers_state_witness:
  "dijkstra [[0, 2], [0, 0]] [Fin 0, Fin 7] =
     Some (Inr ([PathTo 0 [0] (Fin 0), PathTo 1 [0, 1] (Fin 2)], [Fin 0, Fin 2])) \<and>
   never_above [Fin 0, Fin 2] [Fin 0, Fin 7]"
proof -
  have r: "dijkstra [[0, 2], [0, 0]] [Fin 0, Fin 7] =
     Some (Inr ([PathTo 0 [0] (Fin 0), PathTo 1 [0, 1] (Fin 2)], [Fin 0, Fin 2]))"
    by code_simp
  from distance_vector_is_callers_state[of "[[0, 2], [0, 0]]" "[Fin 0, Fin 7]"
      "[PathTo 0 [0] (Fin 0), PathTo 1 [0, 1] (Fin 2)]" "[Fin 0, Fin 2]"] r
  show ?thesis by blast
qed

section \<open>Termination of the relaxation loop\<close>

lemma relaxation_loop_empties:
  assumes "relaxation_loop m s = Some (Inr t)"
  shows "heap t = []"
  using assms by (rule relaxation_loop_steps[where R = "\<lambda>s t. heap t = []"])

text \<open>
  C2. The relaxation loop ends, from every state and for every matrix: it returns a
  state whose frontier is empty, or it raises. Neither self-loops nor stale frontier
  entries (any list of entries is allowed as the frontier of the starting state) make
  it run forever, and the sign of the weights plays no part. On a square matrix, from
  a state whose lists have one entry per vertex and whose frontier names vertices of
  the matrix, it raises nothing: it returns with an empty frontier.
\<close>

theorem relaxation_loop_terminates:
  "(\<exists>r. relaxation_loop matrix s = Some r \<and> (case r of Inl e \<Rightarrow> True | Inr t \<Rightarrow> heap t = [])) \<and>
   (square matrix \<and> wf_state matrix s \<longrightarrow>
      (\<exists>t. relaxation_loop matrix s = Some (Inr t) \<and> heap t = []))"
proof (intro conjI impI)
  from relaxation_loop_returns[of matrix s] obtain r where r: "relaxation_loop matrix s = Some r"
    by blast
  then have "case r of Inl e \<Rightarrow> True | Inr t \<Rightarrow> heap t = []"
    by (cases r) (simp_all add: relaxation_loop_empties)
  with r show "\<exists>r. relaxation_loop matrix s = Some r \<and> (case r of Inl e \<Rightarrow> True | Inr t \<Rightarrow> heap t = [])"
    by blast
next
  assume a: "square matrix \<and> wf_state matrix s"
  have "\<exists>s'. visit matrix s = Inr s' \<and> wf_state matrix s'"
    if "wf_state matrix s" "heap s \<noteq> []" for s
  proof -
    from a that visit_ok[of matrix s] obtain s' where "visit matrix s = Inr s'" by blast
    with that visit_wf[of s matrix s'] show ?thesis by blast
  qed
  with a relaxation_loop_rule[of "wf_state matrix" s matrix]
  show "\<exists>t. relaxation_loop matrix s = Some (Inr t) \<and> heap t = []" by blast
qed

theorem relaxation_loop_terminates_witness:
  "square [[3, 2], [0, 0]] \<and>
   wf_state [[3, 2], [0, 0]]
     \<lparr>visited = {0}, heap = [(5, 0), (2, 1), (7, 1)], distance_vector = [Fin 0, Fin 2],
      previous = [None, Some 0]\<rparr> \<and>
   (\<exists>t. relaxation_loop [[3, 2], [0, 0]]
          \<lparr>visited = {0}, heap = [(5, 0), (2, 1), (7, 1)], distance_vector = [Fin 0, Fin 2],
           previous = [None, Some 0]\<rparr> = Some (Inr t) \<and> heap t = [])"
proof -
  let ?M = "[[3, 2], [0, 0 :: int]]"
  let ?s = "\<lparr>visited = {0}, heap = [(5, 0), (2, 1), (7, 1)], distance_vector = [Fin 0, Fin 2],
            previous = [None, Some 0]\<rparr>"
  have h: "square ?M" "wf_state ?M ?s" by (simp_all add: square_def wf_state_def)
  with relaxation_loop_terminates[of ?M ?s] show ?thesis by blast
qed

end
